theory Spec2Isabelle
  imports Complex_Main "HOL-Library.AList"
begin

section \<open>Python strings and POSIX paths\<close>

text \<open>
  Strings are lists of 8-bit characters. The external commands print ASCII listings, so
  the whitespace and digit classes below are the ASCII part of Python's \<^verbatim>\<open>str.isspace\<close>
  and \<^verbatim>\<open>int()\<close>.
\<close>

definition is_space :: "char \<Rightarrow> bool" where
  "is_space c = (c \<in> set [CHR 0x09, CHR 0x0A, CHR 0x0B, CHR 0x0C, CHR 0x0D,
                            CHR 0x1C, CHR 0x1D, CHR 0x1E, CHR 0x1F, CHR 0x20])"

text \<open>\<^verbatim>\<open>s.split()\<close>: maximal runs of non-whitespace characters.\<close>

fun split_ws_from :: "string \<Rightarrow> string \<Rightarrow> string list" where
  "split_ws_from cur [] = (if cur = [] then [] else [rev cur])"
| "split_ws_from cur (c # cs) =
     (if is_space c
      then (if cur = [] then split_ws_from [] cs else rev cur # split_ws_from [] cs)
      else split_ws_from (c # cur) cs)"

definition split_ws :: "string \<Rightarrow> string list" where
  "split_ws s = split_ws_from [] s"

text \<open>\<^verbatim>\<open>s.split(sep)\<close> for a one-character separator: never returns the empty list.\<close>

fun split_on :: "char \<Rightarrow> string \<Rightarrow> string list" where
  "split_on sep [] = [[]]"
| "split_on sep (c # cs) =
     (if c = sep then [] # split_on sep cs
      else (case split_on sep cs of
              [] \<Rightarrow> [[c]]
            | x # xs \<Rightarrow> (c # x) # xs))"

definition split_lines :: "string \<Rightarrow> string list" where
  "split_lines s = split_on (CHR 0x0A) s"

definition startswith :: "string \<Rightarrow> string \<Rightarrow> bool" where
  "startswith s p = (take (length p) s = p)"

definition endswith :: "string \<Rightarrow> string \<Rightarrow> bool" where
  "endswith s p = (length p \<le> length s \<and> drop (length s - length p) s = p)"

text \<open>\<^verbatim>\<open>sub in s\<close>.\<close>

fun contains :: "string \<Rightarrow> string \<Rightarrow> bool" where
  "contains [] sub = (sub = [])"
| "contains (c # cs) sub = (startswith (c # cs) sub \<or> contains cs sub)"

definition strip :: "string \<Rightarrow> string" where
  "strip s = rev (dropWhile is_space (rev (dropWhile is_space s)))"

definition is_digit :: "char \<Rightarrow> bool" where
  "is_digit c = (48 \<le> (of_char c :: nat) \<and> (of_char c :: nat) \<le> 57)"

definition digit_val :: "char \<Rightarrow> nat" where
  "digit_val c = of_char c - 48"

text \<open>
  \<^verbatim>\<open>int(s)\<close> on a token without whitespace: an optional sign, then decimal digits, where a
  single underscore may stand between two digits. \<open>None\<close> is \<^verbatim>\<open>ValueError\<close>.
\<close>

fun digits_after :: "nat \<Rightarrow> string \<Rightarrow> nat option" where
  "digits_after n [] = Some n"
| "digits_after n [c] = (if is_digit c then Some (10 * n + digit_val c) else None)"
| "digits_after n (c # d # ds) =
     (if is_digit c then digits_after (10 * n + digit_val c) (d # ds)
      else if c = CHR ''_'' \<and> is_digit d then digits_after (10 * n + digit_val d) ds
      else None)"

definition py_digits :: "string \<Rightarrow> nat option" where
  "py_digits s = (case s of
       [] \<Rightarrow> None
     | c # cs \<Rightarrow> if is_digit c then digits_after (digit_val c) cs else None)"

definition py_int :: "string \<Rightarrow> int option" where
  "py_int s = (case s of
       [] \<Rightarrow> None
     | c # cs \<Rightarrow>
         if c = CHR ''-'' then map_option (\<lambda>n. - int n) (py_digits cs)
         else if c = CHR ''+'' then map_option int (py_digits cs)
         else map_option int (py_digits s))"

text \<open>\<^verbatim>\<open>os.path.basename\<close>, \<^verbatim>\<open>os.path.dirname\<close> and two-argument \<^verbatim>\<open>os.path.join\<close> of posixpath.\<close>

definition basename :: "string \<Rightarrow> string" where
  "basename p = rev (takeWhile (\<lambda>c. c \<noteq> CHR ''/'') (rev p))"

definition dirname :: "string \<Rightarrow> string" where
  "dirname p =
     (let head = rev (dropWhile (\<lambda>c. c \<noteq> CHR ''/'') (rev p))
      in if head \<noteq> [] \<and> \<not> list_all (\<lambda>c. c = CHR ''/'') head
         then rev (dropWhile (\<lambda>c. c = CHR ''/'') (rev head))
         else head)"

definition path_join :: "string \<Rightarrow> string \<Rightarrow> string" where
  "path_join a b =
     (if startswith b ''/'' then b
      else if a = [] \<or> endswith a ''/'' then a @ b
      else a @ ''/'' @ b)"

section \<open>Configuration constants of parquet\_consolidator.py\<close>

definition PARALLEL_DOWNLOADS :: nat where
  "PARALLEL_DOWNLOADS = 8"

definition CLEANUP_THRESHOLD_BYTES :: int where
  "CLEANUP_THRESHOLD_BYTES = 1024"

definition BASE_PATH :: string where
  "BASE_PATH = ''/insurance-megacorp/telemetry-data-v2''"

definition TARGET_FILE_SIZE_MB :: int where
  "TARGET_FILE_SIZE_MB = 128"

definition MIN_FILES_TO_CONSOLIDATE :: nat where
  "MIN_FILES_TO_CONSOLIDATE = 5"

definition MIN_FILE_SIZE_BYTES :: int where
  "MIN_FILE_SIZE_BYTES = 1024"

definition TEMP_LOCAL_DIR :: string where
  "TEMP_LOCAL_DIR = ''/tmp/parquet_consolidation''"

text \<open>The formatted strings: the partition directory of a date and a file in it, the staging
  directory and the name of the consolidated file, both stamped with the time \<^verbatim>\<open>%H%M%S\<close>.\<close>

definition partition_path :: "string \<Rightarrow> string" where
  "partition_path date = BASE_PATH @ ''/date='' @ date"

definition partition_file :: "string \<Rightarrow> string \<Rightarrow> string" where
  "partition_file date name = partition_path date @ ''/'' @ name"

definition staging_dir :: "string \<Rightarrow> string \<Rightarrow> string" where
  "staging_dir date hms = path_join TEMP_LOCAL_DIR (''consolidation_'' @ date @ ''_'' @ hms)"

definition consolidated_name :: "string \<Rightarrow> string \<Rightarrow> string" where
  "consolidated_name date hms = ''telemetry-'' @ date @ ''-consolidated-'' @ hms @ ''.parquet''"

section \<open>The environment: exceptions, external calls and their outcomes\<close>

text \<open>
  The program talks to HDFS (through the \<^verbatim>\<open>hdfs\<close> command line or the hdfs3 client), to the
  local file system and to pyarrow. Every such call is answered by the environment, and the
  answer may depend on everything that happened before. An \<open>event\<close> is one call with its
  outcome; the history is the list of events so far. \<open>Inl e\<close> is a raised exception.
\<close>

datatype exc = ValueError | IndexError | TimeoutExpired | OtherError

text \<open>\<^verbatim>\<open>subprocess.CompletedProcess\<close>: the fields the control flow reads.\<close>

datatype completed = CompletedProcess (returncode: int) (stdout: string)

text \<open>A pyarrow table: its schema (column names and types) and its rows.\<close>

datatype table = Table (schema: "(string \<times> string) list") (rows: "string list list")

datatype event =
    Run "string list" "nat option" "exc + completed"
  | HdfsLs string "exc + string list"
  | HdfsInfo string "exc + int"
  | HdfsGet string string "exc + unit"
  | HdfsPut string string "exc + unit"
  | HdfsRm string "exc + unit"
  | Makedirs string "exc + unit"
  | ReadTable string "exc + table"
  | WriteTable table string "exc + unit"
  | PathExists string bool
  | Rmtree string "exc + unit"

text \<open>
  \<open>Run argv timeout r\<close> is \<^verbatim>\<open>subprocess.run(argv, timeout=...)\<close>. The other events are the methods
  of the hdfs3 client, \<^verbatim>\<open>os.makedirs\<close>, \<^verbatim>\<open>pq.read_table\<close>, \<^verbatim>\<open>pq.write_table\<close>, \<^verbatim>\<open>os.path.exists\<close>
  and \<^verbatim>\<open>shutil.rmtree\<close>. \<open>hdfs_client\<close> says whether \<^verbatim>\<open>self.hdfs\<close> is set; \<open>next_completed\<close>
  is the thread pool's scheduler: among \<open>n\<close> pending downloads it picks the one that completes
  next. \<open>strptime\<close> and \<open>strftime\<close> are the \<^verbatim>\<open>%Y-%m-%d\<close> conversions of \<^verbatim>\<open>datetime\<close> between
  text and day ordinals; \<open>now_hms\<close> is \<^verbatim>\<open>datetime.now().strftime('%H%M%S')\<close>.
\<close>

record world =
  hdfs_client :: bool
  subprocess_run :: "event list \<Rightarrow> string list \<Rightarrow> nat option \<Rightarrow> exc + completed"
  hdfs_ls :: "event list \<Rightarrow> string \<Rightarrow> exc + string list"
  hdfs_info :: "event list \<Rightarrow> string \<Rightarrow> exc + int"
  hdfs_get :: "event list \<Rightarrow> string \<Rightarrow> string \<Rightarrow> exc + unit"
  hdfs_put :: "event list \<Rightarrow> string \<Rightarrow> string \<Rightarrow> exc + unit"
  hdfs_rm :: "event list \<Rightarrow> string \<Rightarrow> exc + unit"
  os_makedirs :: "event list \<Rightarrow> string \<Rightarrow> exc + unit"
  pq_read_table :: "event list \<Rightarrow> string \<Rightarrow> exc + table"
  pq_write_table :: "event list \<Rightarrow> table \<Rightarrow> string \<Rightarrow> exc + unit"
  os_path_exists :: "event list \<Rightarrow> string \<Rightarrow> bool"
  shutil_rmtree :: "event list \<Rightarrow> string \<Rightarrow> exc + unit"
  next_completed :: "event list \<Rightarrow> nat \<Rightarrow> nat"
  now_hms :: "event list \<Rightarrow> string"
  strptime :: "string \<Rightarrow> exc + int"
  strftime :: "int \<Rightarrow> string"

text \<open>
  An action takes the history and returns its result, or the exception it raises, together
  with the events it added.
\<close>

type_synonym 'a action = "event list \<Rightarrow> (exc + 'a) \<times> event list"

definition pure :: "'a \<Rightarrow> 'a action" where
  "pure a h = (Inr a, [])"

definition raise :: "exc \<Rightarrow> 'a action" where
  "raise e h = (Inl e, [])"

definition seq :: "'a action \<Rightarrow> ('a \<Rightarrow> 'b action) \<Rightarrow> 'b action" where
  "seq m f h =
     (case m h of
        (Inl e, evs) \<Rightarrow> (Inl e, evs)
      | (Inr a, evs) \<Rightarrow> (case f a (h @ evs) of (r, evs') \<Rightarrow> (r, evs @ evs')))"

text \<open>\<^verbatim>\<open>try: m  except Exception as e: handler(e)\<close>\<close>

definition try_except :: "'a action \<Rightarrow> (exc \<Rightarrow> 'a action) \<Rightarrow> 'a action" where
  "try_except m handler h =
     (case m h of
        (Inl e, evs) \<Rightarrow> (case handler e (h @ evs) of (r, evs') \<Rightarrow> (r, evs @ evs'))
      | (Inr a, evs) \<Rightarrow> (Inr a, evs))"

text \<open>\<^verbatim>\<open>try: m  finally: fin\<close>: \<open>fin\<close> always runs; an exception of \<open>fin\<close> replaces the result.\<close>

definition try_finally :: "'a action \<Rightarrow> unit action \<Rightarrow> 'a action" where
  "try_finally m fin h =
     (case m h of
        (r, evs) \<Rightarrow> (case fin (h @ evs) of
                       (Inl e, evs') \<Rightarrow> (Inl e, evs @ evs')
                     | (Inr u, evs') \<Rightarrow> (r, evs @ evs')))"

text \<open>A \<^verbatim>\<open>for\<close> loop that carries a state through its body.\<close>

primrec for_each :: "('a \<Rightarrow> 's \<Rightarrow> 's action) \<Rightarrow> 'a list \<Rightarrow> 's \<Rightarrow> 's action" where
  "for_each body [] = (\<lambda>s. pure s)"
| "for_each body (x # xs) = (\<lambda>s. seq (body x s) (for_each body xs))"

text \<open>The external calls as actions: each adds exactly one event.\<close>

definition subprocess :: "world \<Rightarrow> string list \<Rightarrow> nat option \<Rightarrow> completed action" where
  "subprocess w argv timeout h =
     (subprocess_run w h argv timeout,
      [Run argv timeout (subprocess_run w h argv timeout)])"

definition client_ls :: "world \<Rightarrow> string \<Rightarrow> string list action" where
  "client_ls w path h =
     (hdfs_ls w h path,
      [HdfsLs path (hdfs_ls w h path)])"

definition client_info :: "world \<Rightarrow> string \<Rightarrow> int action" where
  "client_info w path h =
     (hdfs_info w h path,
      [HdfsInfo path (hdfs_info w h path)])"

definition client_get :: "world \<Rightarrow> string \<Rightarrow> string \<Rightarrow> unit action" where
  "client_get w src dst h =
     (hdfs_get w h src dst,
      [HdfsGet src dst (hdfs_get w h src dst)])"

definition client_put :: "world \<Rightarrow> string \<Rightarrow> string \<Rightarrow> unit action" where
  "client_put w src dst h =
     (hdfs_put w h src dst,
      [HdfsPut src dst (hdfs_put w h src dst)])"

definition client_rm :: "world \<Rightarrow> string \<Rightarrow> unit action" where
  "client_rm w path h =
     (hdfs_rm w h path,
      [HdfsRm path (hdfs_rm w h path)])"

definition makedirs :: "world \<Rightarrow> string \<Rightarrow> unit action" where
  "makedirs w path h =
     (os_makedirs w h path,
      [Makedirs path (os_makedirs w h path)])"

definition read_table :: "world \<Rightarrow> string \<Rightarrow> table action" where
  "read_table w path h =
     (pq_read_table w h path,
      [ReadTable path (pq_read_table w h path)])"

definition write_table :: "world \<Rightarrow> table \<Rightarrow> string \<Rightarrow> unit action" where
  "write_table w t path h =
     (pq_write_table w h t path,
      [WriteTable t path (pq_write_table w h t path)])"

definition path_exists :: "world \<Rightarrow> string \<Rightarrow> bool action" where
  "path_exists w path h =
     (Inr (os_path_exists w h path),
      [PathExists path (os_path_exists w h path)])"

definition rmtree :: "world \<Rightarrow> string \<Rightarrow> unit action" where
  "rmtree w path h =
     (shutil_rmtree w h path,
      [Rmtree path (shutil_rmtree w h path)])"

definition strftime_now :: "world \<Rightarrow> string action" where
  "strftime_now w h = (Inr (now_hms w h), [])"

text \<open>A pure computation that may raise.\<close>

definition of_result :: "exc + 'a \<Rightarrow> 'a action" where
  "of_result r h = (r, [])"

section \<open>parquet\_consolidator.py: class ParquetConsolidator\<close>

subsection \<open>cleanup\_corrupted\_files\<close>

text \<open>
  The body of the \<^verbatim>\<open>for line in result.stdout.split('\n')\<close> loop. A size that does not parse
  raises \<^verbatim>\<open>ValueError\<close>, which the inner handler turns into \<^verbatim>\<open>continue\<close>; any other exception
  of the \<^verbatim>\<open>-rm\<close> call leaves the loop.
\<close>

definition cleanup_line :: "world \<Rightarrow> bool \<Rightarrow> string \<Rightarrow> int \<Rightarrow> int action" where
  "cleanup_line w dry_run line deleted_count =
     (if contains line ''telemetry-'' \<and> contains line ''.parquet'' then
        (let parts = split_ws line in
         if 8 \<le> length parts then
           try_except
             (seq (of_result (case py_int (parts ! 4) of
                                None \<Rightarrow> Inl ValueError
                              | Some sz \<Rightarrow> Inr sz)) (\<lambda>sz.
                let file_path = last parts in
                if sz \<le> CLEANUP_THRESHOLD_BYTES then
                  (if dry_run then pure deleted_count
                   else seq (subprocess w [''hdfs'', ''dfs'', ''-rm'', file_path] None)
                          (\<lambda>del_result.
                             if returncode del_result = 0 then pure (deleted_count + 1)
                             else pure deleted_count))
                else pure deleted_count))
             (\<lambda>e. if e = ValueError \<or> e = IndexError then pure deleted_count else raise e)
         else pure deleted_count)
      else pure deleted_count)"

definition cleanup_corrupted_files :: "world \<Rightarrow> string \<Rightarrow> bool \<Rightarrow> int action" where
  "cleanup_corrupted_files w date dry_run =
     (let date_path = partition_path date in
      try_except
        (seq (subprocess w [''hdfs'', ''dfs'', ''-ls'', date_path] None) (\<lambda>result.
           if returncode result \<noteq> 0 then pure 0
           else for_each (cleanup_line w dry_run) (split_lines (stdout result)) 0))
        (\<lambda>e. pure 0))"

subsection \<open>get\_daily\_files\<close>

text \<open>The loop of the subprocess branch over the lines of the listing.\<close>

fun daily_files_of_lines :: "string list \<Rightarrow> string list" where
  "daily_files_of_lines [] = []"
| "daily_files_of_lines (line # lines) =
     (if contains line ''telemetry-'' \<and> contains line ''.parquet'' then
        (if contains line ''consolidated'' then daily_files_of_lines lines
         else (let parts = split_ws line in
               if 8 \<le> length parts then last parts # daily_files_of_lines lines
               else daily_files_of_lines lines))
      else daily_files_of_lines lines)"

definition get_daily_files :: "world \<Rightarrow> string \<Rightarrow> string list action" where
  "get_daily_files w date =
     (let date_path = partition_path date in
      try_except
        (if hdfs_client w then
           seq (client_ls w date_path) (\<lambda>listing.
             pure (filter (\<lambda>f. endswith f ''.parquet'' \<and> contains f ''telemetry-''
                                 \<and> \<not> contains f ''consolidated'') listing))
         else
           seq (subprocess w [''hdfs'', ''dfs'', ''-ls'', date_path] None) (\<lambda>result.
             if returncode result \<noteq> 0 then pure []
             else pure (daily_files_of_lines (split_lines (stdout result)))))
        (\<lambda>e. pure []))"

subsection \<open>get\_file\_info\<close>

text \<open>
  The loops carry \<^verbatim>\<open>file_info\<close> (a dict from path to size, in insertion order),
  \<^verbatim>\<open>total_size\<close> and \<^verbatim>\<open>skipped_files\<close>. The dict's \<^verbatim>\<open>size_mb\<close> entries and the returned
  \<^verbatim>\<open>total_size_mb\<close> are these byte counts divided by \<open>1024 * 1024\<close>; they are only logged, so
  the model keeps the bytes.
\<close>

type_synonym info_state = "(string \<times> int) list \<times> int \<times> string list"

definition info_of_client :: "world \<Rightarrow> string \<Rightarrow> info_state \<Rightarrow> info_state action" where
  "info_of_client w file_path st =
     (case st of (file_info, total_size, skipped_files) \<Rightarrow>
        try_except
          (seq (client_info w file_path) (\<lambda>sz.
             if sz < MIN_FILE_SIZE_BYTES
             then pure (file_info, total_size, skipped_files @ [file_path])
             else pure (AList.update file_path sz file_info, total_size + sz, skipped_files)))
          (\<lambda>e. pure (file_info, total_size, skipped_files @ [file_path])))"

fun size_map_of_lines :: "string list \<Rightarrow> (string \<times> int) list \<Rightarrow> (string \<times> int) list" where
  "size_map_of_lines [] size_map = size_map"
| "size_map_of_lines (line # lines) size_map =
     (if startswith line ''Found '' \<or> startswith line ''drw'' \<or> strip line = [] then
        size_map_of_lines lines size_map
      else (let parts = split_ws line in
            if 8 \<le> length parts then
              (case py_int (parts ! 4) of
                 None \<Rightarrow> size_map_of_lines lines size_map
               | Some sz \<Rightarrow> size_map_of_lines lines (AList.update (parts ! 7) sz size_map))
            else size_map_of_lines lines size_map))"

fun match_sizes :: "(string \<times> int) list \<Rightarrow> string list \<Rightarrow> info_state \<Rightarrow> info_state" where
  "match_sizes size_map [] st = st"
| "match_sizes size_map (file_path # files) (file_info, total_size, skipped_files) =
     (case map_of size_map file_path of
        Some sz \<Rightarrow>
          if sz < MIN_FILE_SIZE_BYTES
          then match_sizes size_map files (file_info, total_size, skipped_files @ [file_path])
          else match_sizes size_map files
                 (AList.update file_path sz file_info, total_size + sz, skipped_files)
      | None \<Rightarrow>
          match_sizes size_map files (file_info, total_size, skipped_files @ [file_path]))"

text \<open>The function up to its \<^verbatim>\<open>return\<close>: the final value of the three loop variables.\<close>

definition file_info_scan :: "world \<Rightarrow> string list \<Rightarrow> info_state action" where
  "file_info_scan w files =
     (if hdfs_client w then
        for_each (info_of_client w) files ([], 0, [])
      else if files \<noteq> [] then
        (let dir_path = dirname (hd files) in
         try_except
           (seq (subprocess w [''hdfs'', ''dfs'', ''-ls'', dir_path] (Some 60)) (\<lambda>result.
              if returncode result = 0 then
                (let lines = split_lines (strip (stdout result));
                     size_map = size_map_of_lines lines []
                 in pure (match_sizes size_map files ([], 0, [])))
              else pure ([], 0, files)))
           (\<lambda>e. pure ([], 0, files)))
      else pure ([], 0, []))"

record file_info =
  fi_files :: "(string \<times> int) list"
  fi_total_size :: int
  fi_file_count :: nat

definition get_file_info :: "world \<Rightarrow> string list \<Rightarrow> file_info action" where
  "get_file_info w files =
     seq (file_info_scan w files) (\<lambda>(file_info, total_size, skipped_files).
       pure \<lparr>fi_files = file_info, fi_total_size = total_size, fi_file_count = length files\<rparr>)"

subsection \<open>\_download\_single\_file and download\_files\<close>

definition download_single_file :: "world \<Rightarrow> string \<Rightarrow> string \<Rightarrow> string option action" where
  "download_single_file w hdfs_file local_dir =
     try_except
       (let filename = basename hdfs_file;
            local_file = path_join local_dir filename
        in if hdfs_client w then
             seq (client_get w hdfs_file local_file) (\<lambda>u. pure (Some local_file))
           else
             seq (subprocess w [''hdfs'', ''dfs'', ''-get'', hdfs_file, local_file] None)
               (\<lambda>result. if returncode result \<noteq> 0 then pure None else pure (Some local_file)))
       (\<lambda>e. pure None)"

definition remove_nth :: "nat \<Rightarrow> 'a list \<Rightarrow> 'a list" where
  "remove_nth i xs = take i xs @ drop (Suc i) xs"

text \<open>
  \<^verbatim>\<open>for future in as_completed(future_to_file)\<close>: all downloads are submitted, and their
  results are collected in the order in which the pool completes them. A download is one
  external call, recorded when it completes.
\<close>

function as_completed ::
  "world \<Rightarrow> string \<Rightarrow> string list \<Rightarrow> string list \<Rightarrow> string list action" where
  "as_completed w local_dir pending local_files h =
     (if pending = [] then (Inr local_files, [])
      else
        (let i = next_completed w h (length pending) mod length pending;
             hdfs_file = pending ! i
         in case download_single_file w hdfs_file local_dir h of
              (r, evs) \<Rightarrow>
                (case as_completed w local_dir (remove_nth i pending)
                        (case r of
                           Inr (Some local_file) \<Rightarrow>
                             if local_file \<noteq> [] then local_files @ [local_file] else local_files
                         | Inr None \<Rightarrow> local_files
                         | Inl e \<Rightarrow> local_files)
                        (h @ evs) of
                   (r', evs') \<Rightarrow> (r', evs @ evs'))))"
  by pat_completeness auto
termination
proof (relation "measure (\<lambda>(w, local_dir, pending, local_files, h). length pending)")
  fix w :: world and local_dir :: string and pending local_files :: "string list"
    and h :: "event list" and i :: nat and hdfs_file :: string
    and x :: "(exc + string option) \<times> event list" and r :: "exc + string option"
    and evs :: "event list"
  assume "pending \<noteq> []" and "i = next_completed w h (length pending) mod length pending"
  then have "i < length pending"
    by simp
  then have "length (remove_nth i pending) < length pending"
    by (simp add: remove_nth_def)
  then show "((w, local_dir, remove_nth i pending,
                (case r of
                   Inl e \<Rightarrow> local_files
                 | Inr None \<Rightarrow> local_files
                 | Inr (Some local_file) \<Rightarrow>
                     if local_file \<noteq> [] then local_files @ [local_file] else local_files),
                h @ evs),
               (w, local_dir, pending, local_files, h))
              \<in> measure (\<lambda>(w, local_dir, pending, local_files, h). length pending)"
    by simp
qed simp

declare as_completed.simps [simp del]

definition download_files :: "world \<Rightarrow> string list \<Rightarrow> string \<Rightarrow> string list action" where
  "download_files w files local_dir =
     seq (makedirs w local_dir) (\<lambda>u. as_completed w local_dir files [])"

subsection \<open>consolidate\_parquet\_files\<close>

text \<open>
  \<^verbatim>\<open>pa.concat_tables\<close>: the tables must have one schema; it raises on an empty list and on a
  schema mismatch.
\<close>

definition concat_tables :: "table list \<Rightarrow> exc + table" where
  "concat_tables ts =
     (case ts of
        [] \<Rightarrow> Inl ValueError
      | t # rest \<Rightarrow>
          if list_all (\<lambda>u. schema u = schema t) rest
          then Inr (Table (schema t) (concat (map rows ts)))
          else Inl OtherError)"

definition read_one :: "world \<Rightarrow> string \<Rightarrow> table list \<times> nat \<Rightarrow> (table list \<times> nat) action" where
  "read_one w file_path st =
     (case st of (tables, total_rows) \<Rightarrow>
        seq (read_table w file_path) (\<lambda>t.
          pure (tables @ [t], total_rows + length (rows t))))"

definition consolidate_parquet_files :: "world \<Rightarrow> string list \<Rightarrow> string \<Rightarrow> bool action" where
  "consolidate_parquet_files w local_files output_file =
     try_except
       (seq (for_each (read_one w) local_files ([], 0)) (\<lambda>(tables, total_rows).
        seq (of_result (concat_tables tables)) (\<lambda>combined_table.
        seq (write_table w combined_table output_file) (\<lambda>u.
        seq (read_table w output_file) (\<lambda>verification_table.
          if length (rows verification_table) \<noteq> total_rows then pure False
          else pure True)))))
       (\<lambda>e. pure False)"

subsection \<open>upload\_consolidated\_file and remove\_source\_files\<close>

definition upload_consolidated_file :: "world \<Rightarrow> string \<Rightarrow> string \<Rightarrow> bool action" where
  "upload_consolidated_file w local_file hdfs_path =
     try_except
       (if hdfs_client w then
          seq (client_put w local_file hdfs_path) (\<lambda>u. pure True)
        else
          seq (subprocess w [''hdfs'', ''dfs'', ''-put'', local_file, hdfs_path] (Some 120))
            (\<lambda>result. if returncode result = 0 then pure True else pure False))
       (\<lambda>e. pure False)"

definition remove_one :: "world \<Rightarrow> string \<Rightarrow> nat \<Rightarrow> nat action" where
  "remove_one w file_path success_count =
     try_except
       (if hdfs_client w then
          seq (client_rm w file_path) (\<lambda>u. pure (success_count + 1))
        else
          seq (subprocess w [''hdfs'', ''dfs'', ''-rm'', file_path] (Some 30)) (\<lambda>result.
            if returncode result \<noteq> 0 then pure success_count
            else pure (success_count + 1)))
       (\<lambda>e. pure success_count)"

definition remove_source_files :: "world \<Rightarrow> string list \<Rightarrow> bool action" where
  "remove_source_files w files =
     seq (for_each (remove_one w) files 0) (\<lambda>success_count.
       pure (success_count = length files))"

subsection \<open>consolidate\_date\<close>

text \<open>The \<^verbatim>\<open>finally\<close> clause.\<close>

definition cleanup_temp_dir :: "world \<Rightarrow> string \<Rightarrow> unit action" where
  "cleanup_temp_dir w temp_dir =
     try_except
       (seq (path_exists w temp_dir) (\<lambda>b. if b then rmtree w temp_dir else pure ()))
       (\<lambda>e. pure ())"

text \<open>The body of the \<^verbatim>\<open>try\<close>: steps 4 to 7.\<close>

definition consolidate_steps :: "world \<Rightarrow> string \<Rightarrow> string list \<Rightarrow> string \<Rightarrow> bool action" where
  "consolidate_steps w date files temp_dir =
     seq (download_files w files temp_dir) (\<lambda>local_files.
       if local_files = [] then pure False
       else
         seq (strftime_now w) (\<lambda>hms.
           let consolidated_filename = consolidated_name date hms;
               consolidated_local = path_join temp_dir consolidated_filename
           in seq (consolidate_parquet_files w local_files consolidated_local) (\<lambda>merged.
                if \<not> merged then pure False
                else
                  (let hdfs_consolidated_path =
                         partition_file date consolidated_filename
                   in seq (upload_consolidated_file w consolidated_local hdfs_consolidated_path)
                        (\<lambda>uploaded.
                           if \<not> uploaded then pure False
                           else seq (remove_source_files w files) (\<lambda>removed. pure True))))))"

definition consolidate_date :: "world \<Rightarrow> string \<Rightarrow> int \<Rightarrow> bool \<Rightarrow> bool action" where
  "consolidate_date w date target_size_mb dry_run =
     seq (cleanup_corrupted_files w date dry_run) (\<lambda>deleted.
     seq (get_daily_files w date) (\<lambda>files.
       if length files < MIN_FILES_TO_CONSOLIDATE then pure True
       else
         seq (get_file_info w files) (\<lambda>info.
           if dry_run then pure True
           else
             seq (strftime_now w) (\<lambda>hms.
               let temp_dir = staging_dir date hms
               in try_finally
                    (try_except (consolidate_steps w date files temp_dir) (\<lambda>e. pure False))
                    (cleanup_temp_dir w temp_dir)))))"

subsection \<open>main\<close>

record args =
  arg_date :: string
  arg_target_size :: int
  arg_dry_run :: bool
  arg_days_back :: "int option"

text \<open>
  \<^verbatim>\<open>start_date - timedelta(days=i)\<close> on day ordinals: a date before 0001-01-01 (ordinal 1) is
  an \<^verbatim>\<open>OverflowError\<close>.
\<close>

definition day_before :: "world \<Rightarrow> int \<Rightarrow> nat \<Rightarrow> string list \<Rightarrow> string list action" where
  "day_before w start_date i dates =
     (if start_date - int i < 1 then raise OtherError
      else pure (dates @ [strftime w (start_date - int i)]))"

definition requested_dates :: "world \<Rightarrow> args \<Rightarrow> string list action" where
  "requested_dates w a =
     (case arg_days_back a of
        None \<Rightarrow> pure [arg_date a]
      | Some n \<Rightarrow>
          if n \<noteq> 0 then
            seq (of_result (strptime w (arg_date a))) (\<lambda>start_date.
              for_each (day_before w start_date) [0..<nat (n + 1)] [])
          else pure [arg_date a])"

definition count_date :: "world \<Rightarrow> args \<Rightarrow> string \<Rightarrow> nat \<Rightarrow> nat action" where
  "count_date w a date success_count =
     seq (consolidate_date w date (arg_target_size a) (arg_dry_run a)) (\<lambda>ok.
       if ok then pure (success_count + 1) else pure success_count)"

definition main :: "world \<Rightarrow> args \<Rightarrow> int action" where
  "main w a =
     seq (requested_dates w a) (\<lambda>dates.
     seq (for_each (count_date w a) dates 0) (\<lambda>success_count.
       pure (if success_count = length dates then 0 else 1)))"

section \<open>Kinds of events and monitors over histories\<close>

text \<open>
  The calls are told apart by what is called. A listing is \<^verbatim>\<open>hdfs dfs -ls\<close> or the client's
  \<^verbatim>\<open>ls\<close> and \<^verbatim>\<open>info\<close>. Only \<^verbatim>\<open>cleanup_corrupted_files\<close> runs \<^verbatim>\<open>hdfs dfs -rm\<close> without a timeout
  (\<open>SweepRm\<close>); only \<^verbatim>\<open>remove_source_files\<close> runs it with \<^verbatim>\<open>timeout=30\<close> or calls the client's
  \<^verbatim>\<open>rm\<close> (\<open>Reap\<close>). \<open>Finally\<close> is the staging clean-up, \<^verbatim>\<open>os.path.exists\<close> and \<^verbatim>\<open>shutil.rmtree\<close>.
  \<open>Other\<close> is any command line the program never builds.
\<close>

datatype event_kind = Listing | SweepRm | Reap | Get | Put | Mkdir | TableIO | Finally | Other

fun kind :: "event \<Rightarrow> event_kind" where
  "kind (Run argv timeout r) =
     (if length argv = 4 \<and> take 3 argv = [''hdfs'', ''dfs'', ''-ls''] then Listing
      else if length argv = 4 \<and> take 3 argv = [''hdfs'', ''dfs'', ''-rm''] then
        (if timeout = None then SweepRm else if timeout = Some 30 then Reap else Other)
      else if length argv = 5 \<and> take 3 argv = [''hdfs'', ''dfs'', ''-get''] then Get
      else if length argv = 5 \<and> take 3 argv = [''hdfs'', ''dfs'', ''-put''] then Put
      else Other)"
| "kind (HdfsLs path r) = Listing"
| "kind (HdfsInfo path r) = Listing"
| "kind (HdfsGet src dst r) = Get"
| "kind (HdfsPut src dst r) = Put"
| "kind (HdfsRm path r) = Reap"
| "kind (Makedirs path r) = Mkdir"
| "kind (ReadTable path r) = TableIO"
| "kind (WriteTable t path r) = TableIO"
| "kind (PathExists path b) = Finally"
| "kind (Rmtree path r) = Finally"

definition is_listing :: "event \<Rightarrow> bool" where
  "is_listing e = (kind e = Listing)"

definition is_put :: "event \<Rightarrow> bool" where
  "is_put e = (kind e = Put)"

definition is_get :: "event \<Rightarrow> bool" where
  "is_get e = (kind e = Get)"

definition is_reap :: "event \<Rightarrow> bool" where
  "is_reap e = (kind e = Reap)"

definition is_sweep_rm :: "event \<Rightarrow> bool" where
  "is_sweep_rm e = (kind e = SweepRm)"

definition is_delete :: "event \<Rightarrow> bool" where
  "is_delete e = (kind e = SweepRm \<or> kind e = Reap)"

definition is_local :: "event \<Rightarrow> bool" where
  "is_local e = (kind e = Mkdir \<or> kind e = TableIO \<or> kind e = Finally)"

text \<open>
  A put succeeded when the command returned 0, or the client's \<^verbatim>\<open>put\<close> did not raise: this
  is when \<^verbatim>\<open>upload_consolidated_file\<close> returns \<^verbatim>\<open>True\<close>.
\<close>

fun is_put_ok :: "event \<Rightarrow> bool" where
  "is_put_ok (Run argv timeout r) =
     (kind (Run argv timeout r) = Put \<and>
      (case r of Inl e \<Rightarrow> False | Inr p \<Rightarrow> returncode p = 0))"
| "is_put_ok (HdfsPut src dst r) = (r = Inr ())"
| "is_put_ok e = False"

text \<open>
  \<open>reap_after_publish False evs\<close>: every source-file removal in \<open>evs\<close> comes after a put that
  succeeded.
\<close>

fun reap_after_publish :: "bool \<Rightarrow> event list \<Rightarrow> bool" where
  "reap_after_publish published [] = True"
| "reap_after_publish published (e # es) =
     ((is_reap e \<longrightarrow> published) \<and> reap_after_publish (published \<or> is_put_ok e) es)"

text \<open>What an action can add to the history, and that it returns rather than raises.\<close>

definition emits :: "(event \<Rightarrow> bool) \<Rightarrow> 'a action \<Rightarrow> bool" where
  "emits P m = (\<forall>h. list_all P (snd (m h)))"

definition no_raise :: "'a action \<Rightarrow> bool" where
  "no_raise m = (\<forall>h. \<exists>a. fst (m h) = Inr a)"

named_theorems emits_intros
named_theorems no_raise_intros

text \<open>
  \<open>rows_read evs\<close> is the number of rows of all tables that were read in \<open>evs\<close>. Before the
  consolidated file is written, the only tables read are the staged input files.
\<close>

fun rows_read :: "event list \<Rightarrow> nat" where
  "rows_read [] = 0"
| "rows_read (ReadTable path (Inr t) # es) = length (rows t) + rows_read es"
| "rows_read (e # es) = rows_read es"

fun is_write :: "event \<Rightarrow> bool" where
  "is_write (WriteTable t path r) = True"
| "is_write e = False"

text \<open>
  \<open>inputs_read evs\<close> are the tables read before the first write: the staged input files.
  \<open>cleaned_up dir evs\<close>: the history ends with the \<^verbatim>\<open>finally\<close> clause for \<open>dir\<close>, that is with the
  existence check, followed by \<^verbatim>\<open>rmtree\<close> if the directory exists.
\<close>

fun inputs_read :: "event list \<Rightarrow> table list" where
  "inputs_read [] = []"
| "inputs_read (ReadTable path (Inr t) # es) = t # inputs_read es"
| "inputs_read (WriteTable t path r # es) = []"
| "inputs_read (e # es) = inputs_read es"

definition cleaned_up :: "string \<Rightarrow> event list \<Rightarrow> bool" where
  "cleaned_up dir evs =
     (case rev evs of
        PathExists d False # before \<Rightarrow> d = dir
      | Rmtree d r # PathExists d' True # before \<Rightarrow> d = dir \<and> d' = dir
      | _ \<Rightarrow> False)"

text \<open>The entry a line of \<^verbatim>\<open>hdfs dfs -ls\<close> shows: the size in its fifth field and the path in its last.\<close>

definition listed_entry :: "string \<Rightarrow> (int \<times> string) option" where
  "listed_entry line =
     (let parts = split_ws line in
      if 8 \<le> length parts
      then map_option (\<lambda>sz. (sz, last parts)) (py_int (parts ! 4))
      else None)"

text \<open>
  What the sizing loops of \<^verbatim>\<open>get_file_info\<close> maintain: every entry of \<^verbatim>\<open>file_info\<close> has at
  least the minimum size and is one of the given files, each once; \<open>covered\<close> are the files
  that were entered or skipped.
\<close>

definition sized :: "string set \<Rightarrow> info_state \<Rightarrow> bool" where
  "sized F st =
     (case st of (file_info, total_size, skipped_files) \<Rightarrow>
        (\<forall>(p, sz)\<in>set file_info. MIN_FILE_SIZE_BYTES \<le> sz) \<and>
        distinct (map fst file_info) \<and> fst ` set file_info \<subseteq> F)"

definition covered :: "info_state \<Rightarrow> string set" where
  "covered st = (case st of (file_info, total_size, skipped_files) \<Rightarrow>
     fst ` set file_info \<union> set skipped_files)"

section \<open>Concrete environments\<close>

text \<open>
  A partition of five files read through the hdfs3 client, on a machine without the
  \<^verbatim>\<open>hdfs\<close> command line (\<^verbatim>\<open>subprocess.run\<close> raises). Every call succeeds; a staged file holds one
  row, and a file that was written reads back as written.
\<close>

definition the_day :: string where
  "the_day = ''2025-08-15''"

definition source_file :: "nat \<Rightarrow> string" where
  "source_file n = partition_file the_day (''telemetry-'' @ [char_of (48 + n)] @ ''.parquet'')"

definition five_files :: "string list" where
  "five_files = map source_file [1, 2, 3, 4, 5]"

definition vin_schema :: "(string \<times> string) list" where
  "vin_schema = [(''vin'', ''string''), (''speed'', ''double'')]"

definition one_row :: "string \<Rightarrow> table" where
  "one_row p = Table vin_schema [[basename p, ''42.0'']]"

fun last_written :: "event list \<Rightarrow> string \<Rightarrow> table option" where
  "last_written [] p = None"
| "last_written (WriteTable t q (Inr u) # es) p =
     (case last_written es p of
        Some t' \<Rightarrow> Some t'
      | None \<Rightarrow> if q = p then Some t else None)"
| "last_written (e # es) p = last_written es p"

definition client_read :: "event list \<Rightarrow> string \<Rightarrow> exc + table" where
  "client_read h p =
     (case last_written h p of
        Some t \<Rightarrow> Inr t
      | None \<Rightarrow> Inr (one_row p))"

definition client_world :: world where
  "client_world =
     \<lparr>hdfs_client = True,
      subprocess_run = (\<lambda>h argv timeout. Inl OtherError),
      hdfs_ls = (\<lambda>h p. Inr five_files),
      hdfs_info = (\<lambda>h p. Inr 35700),
      hdfs_get = (\<lambda>h s d. Inr ()),
      hdfs_put = (\<lambda>h s d. Inr ()),
      hdfs_rm = (\<lambda>h p. Inr ()),
      os_makedirs = (\<lambda>h p. Inr ()),
      pq_read_table = client_read,
      pq_write_table = (\<lambda>h t p. Inr ()),
      os_path_exists = (\<lambda>h p. True),
      shutil_rmtree = (\<lambda>h p. Inr ()),
      next_completed = (\<lambda>h n. 0),
      now_hms = (\<lambda>h. ''120000''),
      strptime = (\<lambda>s. if s = the_day then Inr 739478 else Inl ValueError),
      strftime = (\<lambda>d. if d = 739478 then the_day else if d = 739477 then ''2025-08-14'' else [])\<rparr>"

text \<open>The names the run below uses, and the history of a run in which nothing fails.\<close>

definition staging :: string where
  "staging = staging_dir the_day ''120000''"

definition staged :: "string \<Rightarrow> string" where
  "staged f = path_join staging (basename f)"

definition merged_local :: string where
  "merged_local = path_join staging (consolidated_name the_day ''120000'')"

definition merged_remote :: string where
  "merged_remote = partition_file the_day (consolidated_name the_day ''120000'')"

definition merged_table :: "string list \<Rightarrow> table" where
  "merged_table fs = Table vin_schema (map (\<lambda>f. [basename f, ''42.0'']) fs)"

definition planning_events :: "event list" where
  "planning_events =
     Run [''hdfs'', ''dfs'', ''-ls'', partition_path the_day] None (Inl OtherError)
     # HdfsLs (partition_path the_day) (Inr five_files)
     # map (\<lambda>f. HdfsInfo f (Inr 35700)) five_files"

definition merge_events :: "string list \<Rightarrow> event list" where
  "merge_events fs =
     map (\<lambda>f. ReadTable (staged f) (Inr (one_row f))) fs
     @ [WriteTable (merged_table fs) merged_local (Inr ()),
        ReadTable merged_local (Inr (merged_table fs))]"

definition published_events :: "event list" where
  "published_events =
     planning_events
     @ Makedirs staging (Inr ())
     # map (\<lambda>f. HdfsGet f (staged f) (Inr ())) five_files
     @ merge_events five_files
     @ HdfsPut merged_local merged_remote (Inr ())
     # map (\<lambda>f. HdfsRm f (Inr ())) five_files"

definition ok_events :: "event list" where
  "ok_events = published_events @ [PathExists staging True, Rmtree staging (Inr ())]"

text \<open>The same machine when the upload is refused.\<close>

definition upload_fail_world :: world where
  "upload_fail_world = client_world\<lparr>hdfs_put := (\<lambda>h s d. Inl OtherError)\<rparr>"

definition upload_fail_events :: "event list" where
  "upload_fail_events =
     planning_events
     @ Makedirs staging (Inr ())
     # map (\<lambda>f. HdfsGet f (staged f) (Inr ())) five_files
     @ merge_events five_files
     @ [HdfsPut merged_local merged_remote (Inl OtherError),
        PathExists staging True, Rmtree staging (Inr ())]"

text \<open>
  The same machine when the consolidated file reads back short: three rows where five were
  written.
\<close>

definition short_table :: table where
  "short_table = merged_table (take 3 five_files)"

definition mismatch_world :: world where
  "mismatch_world =
     client_world\<lparr>pq_read_table :=
       (\<lambda>h p. if p = merged_local then Inr short_table else client_read h p)\<rparr>"

definition before_write :: "event list" where
  "before_write =
     planning_events
     @ Makedirs staging (Inr ())
     # map (\<lambda>f. HdfsGet f (staged f) (Inr ())) five_files
     @ map (\<lambda>f. ReadTable (staged f) (Inr (one_row f))) five_files"

definition mismatch_events :: "event list" where
  "mismatch_events =
     before_write
     @ WriteTable (merged_table five_files) merged_local (Inr ())
     # ReadTable merged_local (Inr short_table)
     # [PathExists staging True, Rmtree staging (Inr ())]"

text \<open>The same machine when the staging directory cannot be removed.\<close>

definition rmtree_fail_world :: world where
  "rmtree_fail_world = client_world\<lparr>shutil_rmtree := (\<lambda>h p. Inl OtherError)\<rparr>"

definition rmtree_fail_events :: "event list" where
  "rmtree_fail_events =
     published_events @ [PathExists staging True, Rmtree staging (Inl OtherError)]"

text \<open>The same machine when the second staged file has another schema.\<close>

definition odd_table :: table where
  "odd_table = Table [(''vin'', ''string'')] [[''telemetry-2.parquet'']]"

definition schema_world :: world where
  "schema_world =
     client_world\<lparr>pq_read_table :=
       (\<lambda>h p. if p = staged (source_file 2) then Inr odd_table else client_read h p)\<rparr>"

definition schema_events :: "event list" where
  "schema_events =
     planning_events
     @ Makedirs staging (Inr ())
     # map (\<lambda>f. HdfsGet f (staged f) (Inr ())) five_files
     @ map (\<lambda>f. ReadTable (staged f)
                (Inr (if f = source_file 2 then odd_table else one_row f))) five_files
     @ [PathExists staging True, Rmtree staging (Inr ())]"

text \<open>
  A partition read through the \<^verbatim>\<open>hdfs\<close> command line: three files, one of 100 bytes. Every
  command succeeds, and after the sweep has removed the small file the listing shows two.
\<close>

definition ls_line :: "string \<Rightarrow> string \<Rightarrow> string" where
  "ls_line sz name =
     ''-rw-r--r--   3 hdfs supergroup '' @ sz @ '' 2025-08-15 10:00 '' @ partition_file the_day name"

definition tiny_file :: string where
  "tiny_file = partition_file the_day ''telemetry-2.parquet''"

definition listing_before :: string where
  "listing_before =
     ''Found 3 items'' @ [CHR 0x0A]
     @ ls_line ''2048'' ''telemetry-1.parquet'' @ [CHR 0x0A]
     @ ls_line ''100'' ''telemetry-2.parquet'' @ [CHR 0x0A]
     @ ls_line ''5000'' ''telemetry-3.parquet'' @ [CHR 0x0A]"

definition listing_after :: string where
  "listing_after =
     ''Found 2 items'' @ [CHR 0x0A]
     @ ls_line ''2048'' ''telemetry-1.parquet'' @ [CHR 0x0A]
     @ ls_line ''5000'' ''telemetry-3.parquet'' @ [CHR 0x0A]"

definition sweep_run :: "event list \<Rightarrow> string list \<Rightarrow> nat option \<Rightarrow> exc + completed" where
  "sweep_run h argv timeout =
     (if take 3 argv = [''hdfs'', ''dfs'', ''-ls'']
      then Inr (CompletedProcess 0 (if h = [] then listing_before else listing_after))
      else Inr (CompletedProcess 0 []))"

definition sweep_world :: world where
  "sweep_world = client_world\<lparr>hdfs_client := False, subprocess_run := sweep_run\<rparr>"

definition sweep_events :: "event list" where
  "sweep_events =
     [Run [''hdfs'', ''dfs'', ''-ls'', partition_path the_day] None
        (Inr (CompletedProcess 0 listing_before)),
      Run [''hdfs'', ''dfs'', ''-rm'', tiny_file] None (Inr (CompletedProcess 0 [])),
      Run [''hdfs'', ''dfs'', ''-ls'', partition_path the_day] None
        (Inr (CompletedProcess 0 listing_after))]"

text \<open>The client's machine when the second file is reported with 500 bytes.\<close>

definition small_world :: world where
  "small_world =
     client_world\<lparr>hdfs_info := (\<lambda>h p. if p = source_file 2 then Inr 500 else Inr 35700)\<rparr>"

section \<open>Reasoning about actions\<close>

lemma emitsD: "emits P m \<Longrightarrow> m h = (r, evs) \<Longrightarrow> list_all P evs"
  by (auto simp: emits_def dest: spec[of _ h])

lemma emits_mono: "emits P m \<Longrightarrow> (\<And>e. P e \<Longrightarrow> Q e) \<Longrightarrow> emits Q m"
  by (auto simp: emits_def list_all_iff)

lemma emits_pure [emits_intros]: "emits P (pure a)"
  by (simp add: emits_def pure_def)

lemma emits_raise [emits_intros]: "emits P (raise e)"
  by (simp add: emits_def raise_def)

lemma emits_of_result [emits_intros]: "emits P (of_result r)"
  by (simp add: emits_def of_result_def)

lemma emits_strftime_now [emits_intros]: "emits P (strftime_now w)"
  by (simp add: emits_def strftime_now_def)

lemma emits_seq [emits_intros]:
  "emits P m \<Longrightarrow> (\<And>a. emits P (f a)) \<Longrightarrow> emits P (seq m f)"
  by (auto simp: emits_def seq_def split: prod.splits sum.splits dest: spec)
     (metis snd_conv)+

lemma emits_try_except [emits_intros]:
  "emits P m \<Longrightarrow> (\<And>e. emits P (handler e)) \<Longrightarrow> emits P (try_except m handler)"
  by (auto simp: emits_def try_except_def split: prod.splits sum.splits dest: spec)
     (metis snd_conv)+

lemma emits_try_finally [emits_intros]:
  "emits P m \<Longrightarrow> emits P fin \<Longrightarrow> emits P (try_finally m fin)"
  by (auto simp: emits_def try_finally_def split: prod.splits sum.splits dest: spec)
     (metis snd_conv)+

lemma emits_for_each [emits_intros]:
  "(\<And>x s. emits P (body x s)) \<Longrightarrow> emits P (for_each body xs s)"
  by (induction xs arbitrary: s) (auto intro: emits_intros)

lemma emits_subprocess: "(\<And>r. P (Run argv timeout r)) \<Longrightarrow> emits P (subprocess w argv timeout)"
  by (simp add: emits_def subprocess_def)

lemma emits_client_ls: "(\<And>r. P (HdfsLs path r)) \<Longrightarrow> emits P (client_ls w path)"
  by (simp add: emits_def client_ls_def)

lemma emits_client_info: "(\<And>r. P (HdfsInfo path r)) \<Longrightarrow> emits P (client_info w path)"
  by (simp add: emits_def client_info_def)

lemma emits_client_get: "(\<And>r. P (HdfsGet src dst r)) \<Longrightarrow> emits P (client_get w src dst)"
  by (simp add: emits_def client_get_def)

lemma emits_client_put: "(\<And>r. P (HdfsPut src dst r)) \<Longrightarrow> emits P (client_put w src dst)"
  by (simp add: emits_def client_put_def)

lemma emits_client_rm: "(\<And>r. P (HdfsRm path r)) \<Longrightarrow> emits P (client_rm w path)"
  by (simp add: emits_def client_rm_def)

lemma emits_makedirs: "(\<And>r. P (Makedirs path r)) \<Longrightarrow> emits P (makedirs w path)"
  by (simp add: emits_def makedirs_def)

lemma emits_read_table: "(\<And>r. P (ReadTable path r)) \<Longrightarrow> emits P (read_table w path)"
  by (simp add: emits_def read_table_def)

lemma emits_write_table: "(\<And>r. P (WriteTable t path r)) \<Longrightarrow> emits P (write_table w t path)"
  by (simp add: emits_def write_table_def)

lemma emits_path_exists: "(\<And>b. P (PathExists path b)) \<Longrightarrow> emits P (path_exists w path)"
  by (simp add: emits_def path_exists_def)

lemma emits_rmtree: "(\<And>r. P (Rmtree path r)) \<Longrightarrow> emits P (rmtree w path)"
  by (simp add: emits_def rmtree_def)

lemmas emits_prims = emits_subprocess emits_client_ls emits_client_info emits_client_get
  emits_client_put emits_client_rm emits_makedirs emits_read_table emits_write_table
  emits_path_exists emits_rmtree

lemma no_raise_pure [no_raise_intros]: "no_raise (pure a)"
  by (simp add: no_raise_def pure_def)

lemma no_raise_seq [no_raise_intros]:
  "no_raise m \<Longrightarrow> (\<And>a. no_raise (f a)) \<Longrightarrow> no_raise (seq m f)"
  unfolding no_raise_def seq_def
  by (auto split: prod.splits sum.splits) (metis fst_conv sum.distinct(1) Inl_Inr_False)+

lemma no_raise_try_except [no_raise_intros]:
  "(\<And>e. no_raise (handler e)) \<Longrightarrow> no_raise (try_except m handler)"
  unfolding no_raise_def try_except_def
  by (auto split: prod.splits sum.splits) (metis fst_conv)+

lemma no_raise_try_finally [no_raise_intros]:
  "no_raise m \<Longrightarrow> no_raise fin \<Longrightarrow> no_raise (try_finally m fin)"
  unfolding no_raise_def try_finally_def
  by (auto split: prod.splits sum.splits) (metis fst_conv sum.distinct(1) Inl_Inr_False)+

lemma no_raise_for_each [no_raise_intros]:
  "(\<And>x s. no_raise (body x s)) \<Longrightarrow> no_raise (for_each body xs s)"
  by (induction xs arbitrary: s) (auto intro: no_raise_intros)

lemma no_raise_strftime_now [no_raise_intros]: "no_raise (strftime_now w)"
  by (simp add: no_raise_def strftime_now_def)

lemma no_raise_path_exists [no_raise_intros]: "no_raise (path_exists w p)"
  by (simp add: no_raise_def path_exists_def)

lemma seq_cases:
  assumes "seq m f h = (r, evs)"
  obtains (raised) e where "m h = (Inl e, evs)" "r = Inl e"
        | (returned) a evs1 evs2 where "m h = (Inr a, evs1)" "f a (h @ evs1) = (r, evs2)" "evs = evs1 @ evs2"
  using assms by (auto simp: seq_def split: prod.splits sum.splits)

lemma try_except_cases:
  assumes "try_except m handler h = (r, evs)"
  obtains (handled) e evs1 evs2 where "m h = (Inl e, evs1)" "handler e (h @ evs1) = (r, evs2)" "evs = evs1 @ evs2"
        | (passed) a where "m h = (Inr a, evs)" "r = Inr a"
  using assms by (auto simp: try_except_def split: prod.splits sum.splits)

lemma no_raiseD: "no_raise m \<Longrightarrow> m h = (r, evs) \<Longrightarrow> \<exists>a. r = Inr a"
  by (auto simp: no_raise_def dest: spec[of _ h])

lemma emits_cleanup_line:
  "emits (\<lambda>e. kind e = SweepRm) (cleanup_line w dry_run line n)"
  unfolding cleanup_line_def Let_def
  by (auto intro!: emits_intros emits_prims)

lemma emits_cleanup_line_dry:
  "emits (\<lambda>e. False) (cleanup_line w True line n)"
  unfolding cleanup_line_def Let_def
  by (auto intro!: emits_intros emits_prims)

lemma emits_cleanup:
  "emits (\<lambda>e. kind e = Listing \<or> kind e = SweepRm) (cleanup_corrupted_files w date dry_run)"
  unfolding cleanup_corrupted_files_def Let_def
  by (auto intro!: emits_intros emits_prims emits_mono[OF emits_cleanup_line])

lemma emits_cleanup_dry:
  "emits (\<lambda>e. kind e = Listing) (cleanup_corrupted_files w date True)"
  unfolding cleanup_corrupted_files_def Let_def
  by (auto intro!: emits_intros emits_prims emits_mono[OF emits_cleanup_line_dry])

lemma no_raise_cleanup: "no_raise (cleanup_corrupted_files w date dry_run)"
  unfolding cleanup_corrupted_files_def Let_def
  by (auto intro!: no_raise_intros)

lemma emits_get_daily_files: "emits (\<lambda>e. kind e = Listing) (get_daily_files w date)"
  unfolding get_daily_files_def Let_def
  by (auto intro!: emits_intros emits_prims)

lemma no_raise_get_daily_files: "no_raise (get_daily_files w date)"
  unfolding get_daily_files_def Let_def
  by (auto intro!: no_raise_intros)

lemma emits_file_info_scan: "emits (\<lambda>e. kind e = Listing) (file_info_scan w files)"
  unfolding file_info_scan_def info_of_client_def Let_def
  by (auto intro!: emits_intros emits_prims split: prod.splits)

lemma no_raise_file_info_scan: "no_raise (file_info_scan w files)"
  unfolding file_info_scan_def info_of_client_def Let_def
  by (auto intro!: no_raise_intros split: prod.splits)

lemma emits_get_file_info: "emits (\<lambda>e. kind e = Listing) (get_file_info w files)"
  unfolding get_file_info_def
  by (auto intro!: emits_intros emits_file_info_scan split: prod.splits)

lemma no_raise_get_file_info: "no_raise (get_file_info w files)"
  unfolding get_file_info_def
  by (auto intro!: no_raise_intros no_raise_file_info_scan split: prod.splits)

lemma emits_download_single_file: "emits (\<lambda>e. kind e = Get) (download_single_file w f d)"
  unfolding download_single_file_def Let_def
  by (auto intro!: emits_intros emits_prims)

lemma no_raise_download_single_file: "no_raise (download_single_file w f d)"
  unfolding download_single_file_def Let_def
  by (auto intro!: no_raise_intros)

lemma as_completed_events:
  "list_all (\<lambda>e. kind e = Get) (snd (as_completed w d pending acc h))"
proof (induction w d pending acc h rule: as_completed.induct)
  case (1 w d pending acc h)
  show ?case
  proof (cases "pending = []")
    case True
    then show ?thesis by (subst as_completed.simps) simp
  next
    case False
    obtain r evs where dl: "download_single_file w (pending ! (next_completed w h (length pending) mod length pending)) d h = (r, evs)"
      by (cases "download_single_file w (pending ! (next_completed w h (length pending) mod length pending)) d h")
    have "list_all (\<lambda>e. kind e = Get) evs"
      using emitsD[OF emits_download_single_file dl] .
    moreover have "list_all (\<lambda>e. kind e = Get) (snd (as_completed w d
         (remove_nth (next_completed w h (length pending) mod length pending) pending)
         (case r of Inl e \<Rightarrow> acc | Inr None \<Rightarrow> acc
          | Inr (Some local_file) \<Rightarrow> if local_file \<noteq> [] then acc @ [local_file] else acc)
         (h @ evs)))"
      using "1.IH"[OF False refl refl dl[symmetric]] .
    ultimately show ?thesis
      using False dl by (subst as_completed.simps) (simp add: Let_def case_prod_beta)
  qed
qed

lemma emits_as_completed: "emits (\<lambda>e. kind e = Get) (as_completed w d pending acc)"
  by (simp add: emits_def as_completed_events)

lemma emits_download_files:
  "emits (\<lambda>e. kind e = Get \<or> kind e = Mkdir) (download_files w files d)"
  unfolding download_files_def
  by (auto intro!: emits_intros emits_prims emits_mono[OF emits_as_completed])

lemma emits_consolidate_parquet_files:
  "emits (\<lambda>e. kind e = TableIO) (consolidate_parquet_files w local_files out)"
  unfolding consolidate_parquet_files_def read_one_def
  by (auto intro!: emits_intros emits_prims split: prod.splits)

lemma no_raise_consolidate_parquet_files: "no_raise (consolidate_parquet_files w local_files out)"
  unfolding consolidate_parquet_files_def
  by (auto intro!: no_raise_intros)

lemma emits_upload: "emits (\<lambda>e. kind e = Put) (upload_consolidated_file w l p)"
  unfolding upload_consolidated_file_def
  by (auto intro!: emits_intros emits_prims)

lemma no_raise_upload: "no_raise (upload_consolidated_file w l p)"
  unfolding upload_consolidated_file_def
  by (auto intro!: no_raise_intros)

lemma emits_remove_source_files: "emits (\<lambda>e. kind e = Reap) (remove_source_files w files)"
  unfolding remove_source_files_def remove_one_def
  by (auto intro!: emits_intros emits_prims)

lemma no_raise_remove_source_files: "no_raise (remove_source_files w files)"
  unfolding remove_source_files_def remove_one_def
  by (auto intro!: no_raise_intros)

lemma no_raise_cleanup_temp_dir: "no_raise (cleanup_temp_dir w d)"
  unfolding cleanup_temp_dir_def
  by (auto intro!: no_raise_intros)

lemma no_raise_consolidate_date: "no_raise (consolidate_date w date t dry_run)"
  unfolding consolidate_date_def Let_def
  by (auto intro!: no_raise_intros no_raise_cleanup no_raise_get_daily_files
        no_raise_get_file_info no_raise_cleanup_temp_dir)

lemma upload_outcome:
  assumes "upload_consolidated_file w l p h = (r, evs)"
  shows "\<exists>up. evs = [up] \<and> kind up = Put \<and> (r = Inr True \<or> r = Inr False) \<and> (r = Inr True \<longleftrightarrow> is_put_ok up)"
  using assms
  by (auto simp: upload_consolidated_file_def try_except_def seq_def pure_def
        client_put_def subprocess_def split: if_splits sum.splits prod.splits)

lemma cleanup_temp_dir_outcome:
  assumes "cleanup_temp_dir w d h = (r, evs)"
  shows "r = Inr () \<and> (evs = [PathExists d False] \<or> (\<exists>res. evs = [PathExists d True, Rmtree d res]))"
  using assms
  by (auto simp: cleanup_temp_dir_def try_except_def seq_def pure_def
        path_exists_def rmtree_def split: if_splits sum.splits prod.splits)

lemma consolidate_steps_cases:
  assumes "consolidate_steps w date files temp_dir h = (r, evs)"
  obtains
    (download_raised) e where
      "download_files w files temp_dir h = (Inl e, evs)" "r = Inl e"
  | (nothing_downloaded)
      "download_files w files temp_dir h = (Inr [], evs)" "r = Inr False"
  | (merge_failed) local_files dl out mg where
      "download_files w files temp_dir h = (Inr local_files, dl)" "local_files \<noteq> []"
      "consolidate_parquet_files w local_files out (h @ dl) = (Inr False, mg)"
      "r = Inr False" "evs = dl @ mg"
  | (upload_failed) local_files dl out mg up where
      "download_files w files temp_dir h = (Inr local_files, dl)" "local_files \<noteq> []"
      "consolidate_parquet_files w local_files out (h @ dl) = (Inr True, mg)"
      "kind up = Put" "\<not> is_put_ok up"
      "r = Inr False" "evs = dl @ mg @ [up]"
  | (published) local_files dl out mg up removed rp where
      "download_files w files temp_dir h = (Inr local_files, dl)" "local_files \<noteq> []"
      "consolidate_parquet_files w local_files out (h @ dl) = (Inr True, mg)"
      "is_put_ok up"
      "remove_source_files w files (h @ dl @ mg @ [up]) = (Inr removed, rp)"
      "r = Inr True" "evs = dl @ mg @ [up] @ rp"
proof -
  note defs = consolidate_steps_def seq_def Let_def strftime_now_def pure_def
  obtain rd dl where dl: "download_files w files temp_dir h = (rd, dl)"
    by (cases "download_files w files temp_dir h")
  show thesis
  proof (cases rd)
    case (Inl e)
    have "r = Inl e \<and> evs = dl"
      using dl Inl assms by (simp add: defs)
    then show thesis using download_raised dl Inl by simp
  next
    case (Inr local_files)
    show thesis
    proof (cases "local_files = []")
      case True
      have "r = Inr False \<and> evs = dl"
        using dl Inr True assms by (simp add: defs)
      then show thesis using nothing_downloaded dl Inr True by simp
    next
      case False
      define out where "out = path_join temp_dir (consolidated_name date (now_hms w (h @ dl)))"
      define dest where "dest = partition_file date (consolidated_name date (now_hms w (h @ dl)))"
      obtain rm mg where mg: "consolidate_parquet_files w local_files out (h @ dl) = (rm, mg)"
        by (cases "consolidate_parquet_files w local_files out (h @ dl)")
      from no_raiseD[OF no_raise_consolidate_parquet_files mg] obtain merged
        where rm: "rm = Inr merged" by blast
      have steps: "consolidate_steps w date files temp_dir h =
         (case (if \<not> merged then pure False
                else seq (upload_consolidated_file w out dest)
                       (\<lambda>uploaded. if \<not> uploaded then pure False
                          else seq (remove_source_files w files) (\<lambda>removed. pure True)))
                 (h @ dl @ mg) of (r', evs') \<Rightarrow> (r', dl @ mg @ evs'))"
        using dl Inr False mg rm
        by (simp add: consolidate_steps_def seq_def Let_def strftime_now_def
              out_def[symmetric] dest_def[symmetric] split: prod.splits)
      show thesis
      proof (cases merged)
        case mFalse: False
        have "r = Inr False \<and> evs = dl @ mg"
          using assms mFalse unfolding steps by (simp add: pure_def)
        then show thesis using merge_failed[of local_files dl out mg] dl Inr False mg rm mFalse
          by simp
      next
        case mTrue: True
        obtain ru upl where upl: "upload_consolidated_file w out dest (h @ dl @ mg) = (ru, upl)"
          by (cases "upload_consolidated_file w out dest (h @ dl @ mg)")
        from upload_outcome[OF upl] obtain up where
          up: "upl = [up]" "kind up = Put" "ru = Inr True \<or> ru = Inr False" "ru = Inr True \<longleftrightarrow> is_put_ok up"
          by blast
        show thesis
        proof (cases "ru = Inr True")
          case uFalse: False
          with up have ru: "ru = Inr False" by blast
          have "r = Inr False \<and> evs = dl @ mg @ [up]"
            using assms mTrue upl up(1) ru unfolding steps by (simp add: seq_def pure_def)
          then show thesis
            using upload_failed[of local_files dl out mg up] dl Inr False mg rm mTrue up uFalse
            by simp
        next
          case uTrue: True
          obtain rr rp where rp: "remove_source_files w files (h @ dl @ mg @ [up]) = (rr, rp)"
            by (cases "remove_source_files w files (h @ dl @ mg @ [up])")
          from no_raiseD[OF no_raise_remove_source_files rp] obtain removed
            where rr: "rr = Inr removed" by blast
          have "r = Inr True \<and> evs = dl @ mg @ [up] @ rp"
            using assms mTrue upl up(1) uTrue rp rr unfolding steps by (simp add: seq_def pure_def)
          then show thesis
            using published[of local_files dl out mg up removed rp] dl Inr False mg rm mTrue up
              uTrue rp rr
            by simp
        qed
      qed
    qed
  qed
qed

lemma consolidate_date_cases:
  assumes "consolidate_date w date target_size_mb dry_run h = (r, evs)"
  obtains
    (skipped) deleted sw files sc where
      "cleanup_corrupted_files w date dry_run h = (Inr deleted, sw)"
      "get_daily_files w date (h @ sw) = (Inr files, sc)"
      "length files < MIN_FILES_TO_CONSOLIDATE" "r = Inr True" "evs = sw @ sc"
  | (planned) deleted sw files sc info fi where
      "cleanup_corrupted_files w date dry_run h = (Inr deleted, sw)"
      "get_daily_files w date (h @ sw) = (Inr files, sc)"
      "MIN_FILES_TO_CONSOLIDATE \<le> length files"
      "get_file_info w files (h @ sw @ sc) = (Inr info, fi)"
      "dry_run" "r = Inr True" "evs = sw @ sc @ fi"
  | (ran) deleted sw files sc info fi temp_dir r0 st fin where
      "cleanup_corrupted_files w date dry_run h = (Inr deleted, sw)"
      "get_daily_files w date (h @ sw) = (Inr files, sc)"
      "MIN_FILES_TO_CONSOLIDATE \<le> length files"
      "get_file_info w files (h @ sw @ sc) = (Inr info, fi)"
      "\<not> dry_run"
      "temp_dir = staging_dir date (now_hms w (h @ sw @ sc @ fi))"
      "consolidate_steps w date files temp_dir (h @ sw @ sc @ fi) = (r0, st)"
      "cleanup_temp_dir w temp_dir (h @ sw @ sc @ fi @ st) = (Inr (), fin)"
      "r = Inr (case r0 of Inl e \<Rightarrow> False | Inr b \<Rightarrow> b)"
      "evs = sw @ sc @ fi @ st @ fin"
proof -
  obtain r1 sw where sw: "cleanup_corrupted_files w date dry_run h = (r1, sw)"
    by (cases "cleanup_corrupted_files w date dry_run h")
  from no_raiseD[OF no_raise_cleanup sw] obtain deleted where r1: "r1 = Inr deleted" by blast
  obtain r2 sc where sc: "get_daily_files w date (h @ sw) = (r2, sc)"
    by (cases "get_daily_files w date (h @ sw)")
  from no_raiseD[OF no_raise_get_daily_files sc] obtain files where r2: "r2 = Inr files" by blast
  show thesis
  proof (cases "length files < MIN_FILES_TO_CONSOLIDATE")
    case True
    have "r = Inr True \<and> evs = sw @ sc"
      using sw r1 sc r2 True assms by (simp add: consolidate_date_def seq_def pure_def)
    then show thesis using skipped[of deleted sw files sc] sw r1 sc r2 True by simp
  next
    case False
    obtain r3 fi where fi: "get_file_info w files (h @ sw @ sc) = (r3, fi)"
      by (cases "get_file_info w files (h @ sw @ sc)")
    from no_raiseD[OF no_raise_get_file_info fi] obtain info where r3: "r3 = Inr info" by blast
    show thesis
    proof (cases dry_run)
      case True
      have "r = Inr True \<and> evs = sw @ sc @ fi"
        using sw r1 sc r2 False fi r3 True assms
        by (simp add: consolidate_date_def seq_def pure_def)
      then show thesis using planned[of deleted sw files sc info fi] sw r1 sc r2 False fi r3 True
        by simp
    next
      case notdry: False
      define temp_dir where "temp_dir = staging_dir date (now_hms w (h @ sw @ sc @ fi))"
      obtain r0 st where st: "consolidate_steps w date files temp_dir (h @ sw @ sc @ fi) = (r0, st)"
        by (cases "consolidate_steps w date files temp_dir (h @ sw @ sc @ fi)")
      obtain r5 fin where fin: "cleanup_temp_dir w temp_dir (h @ sw @ sc @ fi @ st) = (r5, fin)"
        by (cases "cleanup_temp_dir w temp_dir (h @ sw @ sc @ fi @ st)")
      from cleanup_temp_dir_outcome[OF fin] have r5: "r5 = Inr ()" by simp
      have "r = Inr (case r0 of Inl e \<Rightarrow> False | Inr b \<Rightarrow> b) \<and> evs = sw @ sc @ fi @ st @ fin"
        using sw r1 sc r2 False fi r3 notdry st fin r5 assms
        by (cases r0)
           (auto simp add: consolidate_date_def seq_def pure_def strftime_now_def Let_def
              try_finally_def try_except_def temp_dir_def[symmetric])
      then show thesis
        using ran[of deleted sw files sc info fi temp_dir r0 st fin]
          sw r1 sc r2 False fi r3 notdry st fin r5 temp_dir_def
        by simp
    qed
  qed
qed

lemma dry_run_events:
  assumes "consolidate_date w date target_size_mb True h = (r, evs)"
  shows "r = Inr True \<and> list_all (\<lambda>e. kind e = Listing) evs"
  using assms
proof (cases rule: consolidate_date_cases)
  case (skipped deleted sw files sc)
  then show ?thesis
    using emitsD[OF emits_cleanup_dry skipped(1)] emitsD[OF emits_get_daily_files skipped(2)]
    by simp
next
  case (planned deleted sw files sc info fi)
  then show ?thesis
    using emitsD[OF emits_cleanup_dry planned(1)] emitsD[OF emits_get_daily_files planned(2)]
      emitsD[OF emits_get_file_info planned(4)]
    by simp
next
  case (ran deleted sw files sc info fi temp_dir r0 st fin)
  then show ?thesis by simp
qed

lemma put_ok_kind: "is_put_ok e \<Longrightarrow> kind e = Put"
  by (cases e) (auto split: if_splits)

lemma not_put_not_ok: "kind e \<noteq> Put \<Longrightarrow> \<not> is_put_ok e"
  using put_ok_kind by blast

lemma reap_after_publish_no_reap:
  "list_all (\<lambda>e. kind e \<noteq> Reap) xs \<Longrightarrow> reap_after_publish p xs"
  by (induction xs arbitrary: p) (auto simp: is_reap_def)

lemma reap_after_publish_True: "reap_after_publish True xs"
  by (induction xs) auto

lemma reap_after_publish_prefix:
  "list_all (\<lambda>e. kind e \<noteq> Reap \<and> kind e \<noteq> Put) xs \<Longrightarrow>
   reap_after_publish p (xs @ ys) = reap_after_publish p ys"
  by (induction xs arbitrary: p) (simp_all add: is_reap_def not_put_not_ok)

lemma reap_after_publish_suffix:
  "list_all (\<lambda>e. kind e \<noteq> Reap) ys \<Longrightarrow>
   reap_after_publish p (xs @ ys) = reap_after_publish p xs"
  by (induction xs arbitrary: p) (auto simp: reap_after_publish_no_reap)

lemma kinds_weaken: "list_all P xs \<Longrightarrow> (\<And>e. P e \<Longrightarrow> Q e) \<Longrightarrow> list_all Q xs"
  by (simp add: list_all_iff)

lemma finally_kind:
  assumes "cleanup_temp_dir w d h = (r, fin)"
  shows "list_all (\<lambda>e. kind e = Finally) fin"
  using cleanup_temp_dir_outcome[OF assms] by auto

text \<open>The kinds of the events of steps 4 to 7, phase by phase.\<close>

lemma steps_shape:
  assumes "consolidate_steps w date files temp_dir h = (r, evs)"
  shows "(\<exists>quiet. evs = quiet \<and> r \<noteq> Inr True \<and>
            list_all (\<lambda>e. kind e = Get \<or> kind e = Mkdir \<or> kind e = TableIO) quiet)
       \<or> (\<exists>quiet up. evs = quiet @ [up] \<and> r = Inr False \<and> kind up = Put \<and> \<not> is_put_ok up \<and>
            list_all (\<lambda>e. kind e = Get \<or> kind e = Mkdir \<or> kind e = TableIO) quiet)
       \<or> (\<exists>quiet up rp. evs = quiet @ [up] @ rp \<and> r = Inr True \<and> is_put_ok up \<and>
            list_all (\<lambda>e. kind e = Get \<or> kind e = Mkdir \<or> kind e = TableIO) quiet \<and>
            list_all (\<lambda>e. kind e = Reap) rp)"
  using assms
proof (cases rule: consolidate_steps_cases)
  case (download_raised e)
  have "list_all (\<lambda>e. kind e = Get \<or> kind e = Mkdir \<or> kind e = TableIO) evs"
    by (rule kinds_weaken[OF emitsD[OF emits_download_files download_raised(1)]]) blast
  with download_raised(2) show ?thesis by simp
next
  case nothing_downloaded
  have "list_all (\<lambda>e. kind e = Get \<or> kind e = Mkdir \<or> kind e = TableIO) evs"
    by (rule kinds_weaken[OF emitsD[OF emits_download_files nothing_downloaded(1)]]) blast
  with nothing_downloaded(2) show ?thesis by simp
next
  case (merge_failed local_files dl out mg)
  have "list_all (\<lambda>e. kind e = Get \<or> kind e = Mkdir \<or> kind e = TableIO) dl"
    by (rule kinds_weaken[OF emitsD[OF emits_download_files merge_failed(1)]]) blast
  moreover have "list_all (\<lambda>e. kind e = Get \<or> kind e = Mkdir \<or> kind e = TableIO) mg"
    by (rule kinds_weaken[OF emitsD[OF emits_consolidate_parquet_files merge_failed(3)]]) blast
  ultimately show ?thesis using merge_failed(4,5) by simp
next
  case (upload_failed local_files dl out mg up)
  have "list_all (\<lambda>e. kind e = Get \<or> kind e = Mkdir \<or> kind e = TableIO) dl"
    by (rule kinds_weaken[OF emitsD[OF emits_download_files upload_failed(1)]]) blast
  moreover have "list_all (\<lambda>e. kind e = Get \<or> kind e = Mkdir \<or> kind e = TableIO) mg"
    by (rule kinds_weaken[OF emitsD[OF emits_consolidate_parquet_files upload_failed(3)]]) blast
  ultimately have "list_all (\<lambda>e. kind e = Get \<or> kind e = Mkdir \<or> kind e = TableIO) (dl @ mg)"
    by simp
  with upload_failed(4,5,6,7) have
    "\<exists>quiet up. evs = quiet @ [up] \<and> r = Inr False \<and> kind up = Put \<and> \<not> is_put_ok up \<and>
            list_all (\<lambda>e. kind e = Get \<or> kind e = Mkdir \<or> kind e = TableIO) quiet"
    by (intro exI[of _ "dl @ mg"] exI[of _ up]) simp
  then show ?thesis by blast
next
  case (published local_files dl out mg up removed rp)
  have "list_all (\<lambda>e. kind e = Get \<or> kind e = Mkdir \<or> kind e = TableIO) dl"
    by (rule kinds_weaken[OF emitsD[OF emits_download_files published(1)]]) blast
  moreover have "list_all (\<lambda>e. kind e = Get \<or> kind e = Mkdir \<or> kind e = TableIO) mg"
    by (rule kinds_weaken[OF emitsD[OF emits_consolidate_parquet_files published(3)]]) blast
  ultimately have "list_all (\<lambda>e. kind e = Get \<or> kind e = Mkdir \<or> kind e = TableIO) (dl @ mg)"
    by simp
  moreover note emitsD[OF emits_remove_source_files published(5)]
  ultimately have
    "\<exists>quiet up rp. evs = quiet @ [up] @ rp \<and> r = Inr True \<and> is_put_ok up \<and>
            list_all (\<lambda>e. kind e = Get \<or> kind e = Mkdir \<or> kind e = TableIO) quiet \<and>
            list_all (\<lambda>e. kind e = Reap) rp"
    using published(4,6,7)
    by (intro exI[of _ "dl @ mg"] exI[of _ up] exI[of _ rp]) simp
  then show ?thesis by blast
qed

lemma steps_publish_before_reap:
  assumes "consolidate_steps w date files temp_dir h = (r, evs)"
  shows "reap_after_publish False evs \<and>
         (list_ex (\<lambda>e. is_put e \<and> \<not> is_put_ok e) evs \<longrightarrow>
            r = Inr False \<and> list_all (\<lambda>e. \<not> is_reap e) evs)"
proof -
  consider
    (quiet) "r \<noteq> Inr True" "list_all (\<lambda>e. kind e = Get \<or> kind e = Mkdir \<or> kind e = TableIO) evs"
  | (failed) quiet up where "evs = quiet @ [up]" "r = Inr False" "kind up = Put" "\<not> is_put_ok up"
      "list_all (\<lambda>e. kind e = Get \<or> kind e = Mkdir \<or> kind e = TableIO) quiet"
  | (published) quiet up rp where "evs = quiet @ [up] @ rp" "r = Inr True" "is_put_ok up"
      "list_all (\<lambda>e. kind e = Get \<or> kind e = Mkdir \<or> kind e = TableIO) quiet"
      "list_all (\<lambda>e. kind e = Reap) rp"
    using steps_shape[OF assms] by blast
  then show ?thesis
  proof cases
    case quiet
    have a: "list_all (\<lambda>e. kind e \<noteq> Reap) evs"
      by (rule kinds_weaken[OF quiet(2)]) auto
    have b: "list_all (\<lambda>e. kind e \<noteq> Put) evs"
      by (rule kinds_weaken[OF quiet(2)]) auto
    from b have "\<not> list_ex (\<lambda>e. is_put e \<and> \<not> is_put_ok e) evs"
      by (simp add: list_all_iff list_ex_iff is_put_def)
    with a show ?thesis by (simp add: reap_after_publish_no_reap)
  next
    case failed
    have a: "list_all (\<lambda>e. kind e \<noteq> Reap) quiet"
      by (rule kinds_weaken[OF failed(5)]) auto
    with failed(1,3) have "list_all (\<lambda>e. kind e \<noteq> Reap) evs" by simp
    then show ?thesis using failed(2) by (simp add: reap_after_publish_no_reap is_reap_def)
  next
    case published
    have a: "list_all (\<lambda>e. kind e \<noteq> Reap \<and> kind e \<noteq> Put) quiet"
      by (rule kinds_weaken[OF published(4)]) auto
    have b: "list_all (\<lambda>e. kind e \<noteq> Put) rp"
      by (rule kinds_weaken[OF published(5)]) auto
    have "reap_after_publish False evs"
      unfolding published(1) using published(3)
      by (simp add: reap_after_publish_prefix[OF a] reap_after_publish_True is_reap_def put_ok_kind)
    moreover have "\<not> list_ex (\<lambda>e. is_put e \<and> \<not> is_put_ok e) evs"
      unfolding published(1) using a b published(3)
      by (auto simp: list_all_iff list_ex_iff is_put_def)
    ultimately show ?thesis by simp
  qed
qed

lemma planning_kinds:
  assumes "cleanup_corrupted_files w date dry_run h = (r1, sw)"
    and "get_daily_files w date h2 = (r2, sc)"
  shows "list_all (\<lambda>e. kind e = Listing \<or> kind e = SweepRm) (sw @ sc)"
proof -
  have "list_all (\<lambda>e. kind e = Listing \<or> kind e = SweepRm) sc"
    by (rule kinds_weaken[OF emitsD[OF emits_get_daily_files assms(2)]]) blast
  with emitsD[OF emits_cleanup assms(1)] show ?thesis by simp
qed

lemma sizing_kinds:
  assumes "cleanup_corrupted_files w date dry_run h = (r1, sw)"
    and "get_daily_files w date h2 = (r2, sc)"
    and "get_file_info w files h3 = (r3, fi)"
  shows "list_all (\<lambda>e. kind e = Listing \<or> kind e = SweepRm) (sw @ sc @ fi)"
proof -
  have "list_all (\<lambda>e. kind e = Listing \<or> kind e = SweepRm) fi"
    by (rule kinds_weaken[OF emitsD[OF emits_get_file_info assms(3)]]) blast
  with planning_kinds[OF assms(1,2)] show ?thesis by simp
qed

lemma run_ok: "consolidate_date client_world the_day 128 False [] = (Inr True, ok_events)"
  by code_simp

lemma run_upload_fail:
  "consolidate_date upload_fail_world the_day 128 False [] = (Inr False, upload_fail_events)"
  by code_simp

lemma rows_read_append: "rows_read (xs @ ys) = rows_read xs + rows_read ys"
  by (induction xs rule: rows_read.induct) auto

lemma rows_read_no_table_io: "list_all (\<lambda>e. kind e \<noteq> TableIO) xs \<Longrightarrow> rows_read xs = 0"
  by (induction xs rule: rows_read.induct) auto

lemma is_write_kind: "is_write e \<Longrightarrow> kind e = TableIO"
  by (cases e) auto

lemma split_unique:
  assumes "xs @ a # ys = xs' @ a' # ys'" "Q a'"
    and "list_all (\<lambda>e. \<not> Q e) xs" "list_all (\<lambda>e. \<not> Q e) ys"
  shows "xs = xs' \<and> a = a' \<and> ys = ys'"
  using assms
proof (induction xs arbitrary: xs')
  case Nil
  then show ?case by (cases xs') (auto simp: list_all_iff)
next
  case (Cons x xs)
  then show ?case by (cases xs') (auto simp: list_all_iff)
qed

lemma read_one_step:
  "read_one w f (tables, n) h =
     (case pq_read_table w h f of
        Inl e \<Rightarrow> (Inl e, [ReadTable f (Inl e)])
      | Inr t \<Rightarrow> (Inr (tables @ [t], n + length (rows t)), [ReadTable f (Inr t)]))"
  by (simp add: read_one_def seq_def read_table_def pure_def split: sum.splits)

text \<open>The loop that reads the staged files adds only reads, and counts their rows.\<close>

lemma read_loop:
  assumes "for_each (read_one w) fs (tables, n) h = (res, evs)"
  shows "list_all (\<lambda>e. \<not> is_write e) evs \<and>
         (\<forall>tables' n'. res = Inr (tables', n') \<longrightarrow> n' = n + rows_read evs)"
  using assms
proof (induction fs arbitrary: tables n h res evs)
  case Nil
  then show ?case by (auto simp: pure_def)
next
  case (Cons f fs)
  show ?case
  proof (cases "pq_read_table w h f")
    case (Inl e)
    with Cons.prems show ?thesis
      by (auto simp: seq_def read_one_step)
  next
    case (Inr t)
    obtain res' evs' where
      rest: "for_each (read_one w) fs (tables @ [t], n + length (rows t)) (h @ [ReadTable f (Inr t)]) = (res', evs')"
      by (cases "for_each (read_one w) fs (tables @ [t], n + length (rows t)) (h @ [ReadTable f (Inr t)])")
    with Cons.prems Inr have "res = res'" and evs: "evs = ReadTable f (Inr t) # evs'"
      by (simp_all add: seq_def read_one_step)
    with Cons.IH[OF rest] show ?thesis
      by auto
  qed
qed

lemma merge_shape:
  assumes "consolidate_parquet_files w fs out h = (r, mg)"
  shows "(r = Inr False \<and> list_all (\<lambda>e. \<not> is_write e) mg)
       \<or> (\<exists>reads tb e. r = Inr False \<and> mg = reads @ [WriteTable tb out (Inl e)] \<and>
             list_all (\<lambda>e. \<not> is_write e) reads)
       \<or> (\<exists>reads tb res. mg = reads @ [WriteTable tb out (Inr ()), ReadTable out res] \<and>
             list_all (\<lambda>e. \<not> is_write e) reads \<and>
             (r = Inr True \<or> r = Inr False) \<and>
             (r = Inr True \<longleftrightarrow> (\<exists>v. res = Inr v \<and> length (rows v) = rows_read reads)))"
proof -
  obtain res reads where loop: "for_each (read_one w) fs ([], 0) h = (res, reads)"
    by (cases "for_each (read_one w) fs ([], 0) h")
  note rl = read_loop[OF loop]
  show ?thesis
  proof (cases res)
    case (Inl e)
    with assms loop rl show ?thesis
      by (simp add: consolidate_parquet_files_def try_except_def seq_def pure_def)
  next
    case (Inr st)
    obtain tables total_rows where st: "st = (tables, total_rows)" by (cases st)
    with rl Inr have total: "total_rows = rows_read reads" by simp
    show ?thesis
    proof (cases "concat_tables tables")
      case cInl: (Inl e)
      with assms loop rl Inr st show ?thesis
        by (simp add: consolidate_parquet_files_def try_except_def seq_def pure_def of_result_def)
    next
      case cInr: (Inr combined)
      show ?thesis
      proof (cases "pq_write_table w (h @ reads) combined out")
        case wInl: (Inl e)
        with assms loop rl Inr st cInr have "r = Inr False \<and> mg = reads @ [WriteTable combined out (Inl e)]"
          by (simp add: consolidate_parquet_files_def try_except_def seq_def pure_def of_result_def
                write_table_def)
        with rl show ?thesis by blast
      next
        case wInr: (Inr u)
        define res' where "res' = pq_read_table w (h @ reads @ [WriteTable combined out (Inr ())]) out"
        have "mg = reads @ [WriteTable combined out (Inr ()), ReadTable out res'] \<and>
              (r = Inr True \<or> r = Inr False) \<and>
              (r = Inr True \<longleftrightarrow> (\<exists>v. res' = Inr v \<and> length (rows v) = total_rows))"
          using assms loop Inr st cInr wInr
          by (cases res')
             (auto simp: consolidate_parquet_files_def try_except_def seq_def pure_def of_result_def
                write_table_def read_table_def res'_def split: if_splits)
        with rl total show ?thesis by blast
      qed
    qed
  qed
qed

lemma not_table_io_not_write: "kind e \<noteq> TableIO \<Longrightarrow> \<not> is_write e"
  using is_write_kind by blast

lemma steps_gate:
  assumes "consolidate_steps w date files temp_dir h = (r0, st)"
  shows "list_all (\<lambda>e. \<not> is_write e) st
       \<or> (\<exists>a tb out e. st = a @ [WriteTable tb out (Inl e)] \<and> list_all (\<lambda>e. \<not> is_write e) a)
       \<or> (\<exists>a tb out res b.
             st = a @ WriteTable tb out (Inr ()) # ReadTable out res # b \<and>
             list_all (\<lambda>e. \<not> is_write e) a \<and> list_all (\<lambda>e. \<not> is_write e) b \<and>
             ((\<exists>v. res = Inr v \<and> length (rows v) = rows_read a) \<or>
              (r0 = Inr False \<and> list_all (\<lambda>e. kind e \<noteq> Put \<and> kind e \<noteq> Reap) st)))"
proof -
  have merged: ?thesis
    if dl: "download_files w files temp_dir h = (Inr local_files, dl)"
      and mg: "consolidate_parquet_files w local_files out (h @ dl) = (rm, mg)"
      and st: "st = dl @ mg @ rest"
      and rest: "list_all (\<lambda>e. kind e = Put \<or> kind e = Reap) rest"
      and fail: "rm = Inr False \<Longrightarrow> r0 = Inr False \<and> rest = []"
    for local_files dl out rm mg rest
  proof -
    have kdl: "list_all (\<lambda>e. kind e = Get \<or> kind e = Mkdir) dl"
      using emitsD[OF emits_download_files dl] .
    have dl_nw: "list_all (\<lambda>e. \<not> is_write e) dl"
      by (rule kinds_weaken[OF kdl]) (auto dest: is_write_kind)
    have dl_rows: "rows_read dl = 0"
      by (rule rows_read_no_table_io, rule kinds_weaken[OF kdl]) auto
    have dl_quiet: "list_all (\<lambda>e. kind e \<noteq> Put \<and> kind e \<noteq> Reap) dl"
      by (rule kinds_weaken[OF kdl]) auto
    have mg_quiet: "list_all (\<lambda>e. kind e \<noteq> Put \<and> kind e \<noteq> Reap) mg"
      by (rule kinds_weaken[OF emitsD[OF emits_consolidate_parquet_files mg]]) auto
    have rest_nw: "list_all (\<lambda>e. \<not> is_write e) rest"
      by (rule kinds_weaken[OF rest]) (auto dest: is_write_kind)
    from merge_shape[OF mg] consider
      (nowrite) "rm = Inr False" "list_all (\<lambda>e. \<not> is_write e) mg"
    | (wfail) reads tb e where "rm = Inr False" "mg = reads @ [WriteTable tb out (Inl e)]"
        "list_all (\<lambda>e. \<not> is_write e) reads"
    | (reread) reads tb res where "mg = reads @ [WriteTable tb out (Inr ()), ReadTable out res]"
        "list_all (\<lambda>e. \<not> is_write e) reads" "rm = Inr True \<or> rm = Inr False"
        "rm = Inr True \<longleftrightarrow> (\<exists>v. res = Inr v \<and> length (rows v) = rows_read reads)"
      by blast
    then show ?thesis
    proof cases
      case nowrite
      with fail st dl_nw show ?thesis by simp
    next
      case wfail
      with fail st have "st = (dl @ reads) @ [WriteTable tb out (Inl e)]" by simp
      moreover have "list_all (\<lambda>e. \<not> is_write e) (dl @ reads)"
        using dl_nw wfail(3) by simp
      ultimately show ?thesis by blast
    next
      case reread
      have shape: "st = (dl @ reads) @ WriteTable tb out (Inr ()) # ReadTable out res # rest"
        using st reread(1) by simp
      have a: "list_all (\<lambda>e. \<not> is_write e) (dl @ reads)"
        using dl_nw reread(2) by simp
      have rows: "rows_read (dl @ reads) = rows_read reads"
        by (simp add: rows_read_append dl_rows)
      have "(\<exists>v. res = Inr v \<and> length (rows v) = rows_read (dl @ reads)) \<or>
            (r0 = Inr False \<and> list_all (\<lambda>e. kind e \<noteq> Put \<and> kind e \<noteq> Reap) st)"
      proof (cases "rm = Inr True")
        case True
        with reread(4) rows show ?thesis by simp
      next
        case False
        with reread(3) have "rm = Inr False" by simp
        with fail have "r0 = Inr False" "rest = []" by simp_all
        with st dl_quiet mg_quiet show ?thesis by simp
      qed
      with shape a rest_nw show ?thesis by blast
    qed
  qed
  from assms show ?thesis
  proof (cases rule: consolidate_steps_cases)
    case (download_raised e)
    have "list_all (\<lambda>e. \<not> is_write e) st"
      by (rule kinds_weaken[OF emitsD[OF emits_download_files download_raised(1)]])
         (auto dest: is_write_kind)
    then show ?thesis by simp
  next
    case nothing_downloaded
    have "list_all (\<lambda>e. \<not> is_write e) st"
      by (rule kinds_weaken[OF emitsD[OF emits_download_files nothing_downloaded(1)]])
         (auto dest: is_write_kind)
    then show ?thesis by simp
  next
    case (merge_failed local_files dl out mg)
    show ?thesis
      by (rule merged[OF merge_failed(1,3), of "[]"]) (simp_all add: merge_failed)
  next
    case (upload_failed local_files dl out mg up)
    show ?thesis
      by (rule merged[OF upload_failed(1,3), of "[up]"]) (simp_all add: upload_failed)
  next
    case (published local_files dl out mg up removed rp)
    have "list_all (\<lambda>e. kind e = Put \<or> kind e = Reap) ([up] @ rp)"
      using kinds_weaken[OF emitsD[OF emits_remove_source_files published(5)], of "\<lambda>e. kind e = Put \<or> kind e = Reap"]
        put_ok_kind[OF published(4)] by simp
    then show ?thesis
      by (intro merged[OF published(1,3), of "[up] @ rp"]) (simp_all add: published)
  qed
qed

lemma run_mismatch:
  "consolidate_date mismatch_world the_day 128 False [] = (Inr False, mismatch_events)"
  by code_simp

lemma inputs_read_quiet:
  "list_all (\<lambda>e. kind e \<noteq> TableIO) xs \<Longrightarrow> inputs_read (xs @ ys) = inputs_read ys"
  by (induction xs rule: inputs_read.induct) auto

lemma inputs_read_quiet_end:
  "list_all (\<lambda>e. kind e \<noteq> TableIO) ys \<Longrightarrow> inputs_read (xs @ ys) = inputs_read xs"
proof (induction xs rule: inputs_read.induct)
  case 1
  then show ?case using inputs_read_quiet[of ys "[]"] by simp
qed auto

lemma inputs_read_stop:
  "list_all (\<lambda>e. \<not> is_write e) xs \<Longrightarrow>
   inputs_read (xs @ WriteTable t p r # ys) = inputs_read xs"
  by (induction xs rule: inputs_read.induct) auto

lemma read_loop_tables:
  assumes "for_each (read_one w) fs (tables, n) h = (Inr (tables', n'), evs)"
  shows "tables' = tables @ inputs_read evs"
  using assms
proof (induction fs arbitrary: tables n h evs)
  case Nil
  then show ?case by (auto simp: pure_def)
next
  case (Cons f fs)
  show ?case
  proof (cases "pq_read_table w h f")
    case (Inl e)
    with Cons.prems show ?thesis
      by (auto simp: seq_def read_one_step)
  next
    case (Inr t)
    obtain res' evs' where
      rest: "for_each (read_one w) fs (tables @ [t], n + length (rows t)) (h @ [ReadTable f (Inr t)]) = (res', evs')"
      by (cases "for_each (read_one w) fs (tables @ [t], n + length (rows t)) (h @ [ReadTable f (Inr t)])")
    with Cons.prems Inr have res': "res' = Inr (tables', n')" and evs: "evs = ReadTable f (Inr t) # evs'"
      by (simp_all add: seq_def read_one_step)
    from Cons.IH[OF rest[unfolded res']] show ?thesis
      unfolding evs by simp
  qed
qed

lemma concat_tables_schema:
  assumes "concat_tables ts = Inr c" "t1 \<in> set ts" "t2 \<in> set ts"
  shows "schema t1 = schema t2"
  using assms
  by (cases ts) (auto simp: concat_tables_def list_all_iff split: if_splits)

text \<open>A merge that returns \<^verbatim>\<open>True\<close> has read tables of one schema, and then written.\<close>

lemma merge_true_schema:
  assumes "consolidate_parquet_files w fs out h = (Inr True, mg)"
  shows "\<exists>reads tb wr rest. mg = reads @ WriteTable tb out wr # rest \<and>
           list_all (\<lambda>e. \<not> is_write e) reads \<and>
           (\<forall>t1\<in>set (inputs_read reads). \<forall>t2\<in>set (inputs_read reads). schema t1 = schema t2)"
proof -
  obtain res reads where loop: "for_each (read_one w) fs ([], 0) h = (res, reads)"
    by (cases "for_each (read_one w) fs ([], 0) h")
  note rl = read_loop[OF loop]
  show ?thesis
  proof (cases res)
    case (Inl e)
    with assms loop show ?thesis
      by (simp add: consolidate_parquet_files_def try_except_def seq_def pure_def)
  next
    case (Inr st)
    obtain tables total_rows where st: "st = (tables, total_rows)" by (cases st)
    from read_loop_tables[OF loop[unfolded Inr st]] have tables: "tables = inputs_read reads"
      by simp
    show ?thesis
    proof (cases "concat_tables tables")
      case cInl: (Inl e)
      with assms loop Inr st show ?thesis
        by (simp add: consolidate_parquet_files_def try_except_def seq_def pure_def of_result_def)
    next
      case cInr: (Inr combined)
      have "\<exists>rest. mg = reads @ WriteTable combined out (pq_write_table w (h @ reads) combined out) # rest"
        using assms loop Inr st cInr
        by (cases "pq_write_table w (h @ reads) combined out")
           (auto simp: consolidate_parquet_files_def try_except_def seq_def pure_def of_result_def
              write_table_def read_table_def split: if_splits sum.splits)
      with rl concat_tables_schema[OF cInr] tables show ?thesis by blast
    qed
  qed
qed

lemma download_shape:
  assumes "download_files w files d h = (r, dl)"
  shows "\<exists>res gets. dl = Makedirs d res # gets \<and> list_all (\<lambda>e. kind e = Get) gets"
proof (cases "os_makedirs w h d")
  case (Inl e)
  with assms show ?thesis
    by (auto simp: download_files_def seq_def makedirs_def)
next
  case (Inr u)
  obtain r' gets where g: "as_completed w d files [] (h @ [Makedirs d (Inr u)]) = (r', gets)"
    by (cases "as_completed w d files [] (h @ [Makedirs d (Inr u)])")
  with assms Inr have "dl = Makedirs d (Inr u) # gets"
    by (simp add: download_files_def seq_def makedirs_def)
  with emitsD[OF emits_as_completed g] show ?thesis by blast
qed

lemma steps_mkdir:
  assumes "consolidate_steps w date files temp_dir h = (r0, st)"
    and "Makedirs dir res \<in> set st"
  shows "dir = temp_dir"
proof -
  have tail: "dir = temp_dir"
    if dl: "download_files w files temp_dir h = (rd, dl)" and st: "st = dl @ rest"
      and rest: "list_all (\<lambda>e. kind e \<noteq> Mkdir) rest" for rd dl rest
  proof -
    from download_shape[OF dl] obtain res' gets where
      shape: "dl = Makedirs temp_dir res' # gets" "list_all (\<lambda>e. kind e = Get) gets"
      by blast
    from assms(2) st shape(1) have
      "Makedirs dir res = Makedirs temp_dir res' \<or> Makedirs dir res \<in> set gets \<or> Makedirs dir res \<in> set rest"
      by auto
    moreover have "Makedirs dir res \<notin> set gets" "Makedirs dir res \<notin> set rest"
      using shape(2) rest by (force simp: list_all_iff)+
    ultimately show ?thesis by simp
  qed
  from assms(1) show ?thesis
  proof (cases rule: consolidate_steps_cases)
    case (download_raised e)
    show ?thesis by (rule tail[OF download_raised(1), of "[]"]) simp_all
  next
    case nothing_downloaded
    show ?thesis by (rule tail[OF nothing_downloaded(1), of "[]"]) simp_all
  next
    case (merge_failed local_files dl out mg)
    have "list_all (\<lambda>e. kind e \<noteq> Mkdir) mg"
      by (rule kinds_weaken[OF emitsD[OF emits_consolidate_parquet_files merge_failed(3)]]) simp
    then show ?thesis by (intro tail[OF merge_failed(1), of mg]) (simp_all add: merge_failed(5))
  next
    case (upload_failed local_files dl out mg up)
    have "list_all (\<lambda>e. kind e \<noteq> Mkdir) mg"
      by (rule kinds_weaken[OF emitsD[OF emits_consolidate_parquet_files upload_failed(3)]]) simp
    then show ?thesis
      by (intro tail[OF upload_failed(1), of "mg @ [up]"]) (simp_all add: upload_failed(4,7))
  next
    case (published local_files dl out mg up removed rp)
    have "list_all (\<lambda>e. kind e \<noteq> Mkdir) mg"
      by (rule kinds_weaken[OF emitsD[OF emits_consolidate_parquet_files published(3)]]) simp
    moreover have "list_all (\<lambda>e. kind e \<noteq> Mkdir) rp"
      by (rule kinds_weaken[OF emitsD[OF emits_remove_source_files published(5)]]) simp
    ultimately show ?thesis
      by (intro tail[OF published(1), of "mg @ [up] @ rp"])
         (simp_all add: published(7) put_ok_kind[OF published(4)])
  qed
qed

lemma steps_schema:
  assumes "consolidate_steps w date files temp_dir h = (r0, st)"
  shows "(r0 \<noteq> Inr True \<and> list_all (\<lambda>e. kind e \<noteq> Put) st)
       \<or> (\<forall>t1\<in>set (inputs_read st). \<forall>t2\<in>set (inputs_read st). schema t1 = schema t2)"
proof -
  have merged: "\<forall>t1\<in>set (inputs_read st). \<forall>t2\<in>set (inputs_read st). schema t1 = schema t2"
    if dl: "download_files w files temp_dir h = (rd, dl)"
      and mg: "consolidate_parquet_files w local_files out (h @ dl) = (Inr True, mg)"
      and st: "st = dl @ mg @ rest" for rd dl local_files out mg rest
  proof -
    have "list_all (\<lambda>e. kind e \<noteq> TableIO) dl"
      by (rule kinds_weaken[OF emitsD[OF emits_download_files dl]]) auto
    then have one: "inputs_read st = inputs_read (mg @ rest)"
      unfolding st by (rule inputs_read_quiet)
    from merge_true_schema[OF mg] obtain reads tb wr more where
      m1: "mg = reads @ WriteTable tb out wr # more"
      and m2: "list_all (\<lambda>e. \<not> is_write e) reads"
      and m3: "\<forall>t1\<in>set (inputs_read reads). \<forall>t2\<in>set (inputs_read reads). schema t1 = schema t2"
      by blast
    have "mg @ rest = reads @ WriteTable tb out wr # (more @ rest)"
      unfolding m1 by simp
    then have two: "inputs_read (mg @ rest) = inputs_read reads"
      using inputs_read_stop[OF m2, of tb out wr "more @ rest"] by (simp only:)
    show ?thesis
      unfolding one two by (rule m3)
  qed
  from assms show ?thesis
  proof (cases rule: consolidate_steps_cases)
    case (download_raised e)
    have "list_all (\<lambda>e. kind e \<noteq> Put) st"
      by (rule kinds_weaken[OF emitsD[OF emits_download_files download_raised(1)]]) auto
    with download_raised(2) show ?thesis by simp
  next
    case nothing_downloaded
    have "list_all (\<lambda>e. kind e \<noteq> Put) st"
      by (rule kinds_weaken[OF emitsD[OF emits_download_files nothing_downloaded(1)]]) auto
    with nothing_downloaded(2) show ?thesis by simp
  next
    case (merge_failed local_files dl out mg)
    have "list_all (\<lambda>e. kind e \<noteq> Put) dl"
      by (rule kinds_weaken[OF emitsD[OF emits_download_files merge_failed(1)]]) auto
    moreover have "list_all (\<lambda>e. kind e \<noteq> Put) mg"
      by (rule kinds_weaken[OF emitsD[OF emits_consolidate_parquet_files merge_failed(3)]]) simp
    ultimately show ?thesis using merge_failed(4,5) by simp
  next
    case (upload_failed local_files dl out mg up)
    have "\<forall>t1\<in>set (inputs_read st). \<forall>t2\<in>set (inputs_read st). schema t1 = schema t2"
      by (rule merged[OF upload_failed(1,3), of "[up]"]) (simp add: upload_failed(7))
    then show ?thesis by blast
  next
    case (published local_files dl out mg up removed rp)
    have "\<forall>t1\<in>set (inputs_read st). \<forall>t2\<in>set (inputs_read st). schema t1 = schema t2"
      by (rule merged[OF published(1,3), of "[up] @ rp"]) (simp add: published(7))
    then show ?thesis by blast
  qed
qed

lemma cleaned_up_finally:
  assumes "cleanup_temp_dir w d h = (r, fin)"
  shows "cleaned_up d (xs @ fin)"
  using cleanup_temp_dir_outcome[OF assms]
  by (auto simp: cleaned_up_def)

lemma run_rmtree_fail:
  "consolidate_date rmtree_fail_world the_day 128 False [] = (Inr True, rmtree_fail_events)"
  by code_simp

lemma run_schema:
  "consolidate_date schema_world the_day 128 False [] = (Inr False, schema_events)"
  by code_simp

lemma for_each_events:
  assumes "\<And>x s h r evs. body x s h = (r, evs) \<Longrightarrow> \<forall>e\<in>set evs. Q x e"
    and "for_each body xs s h = (r, evs)"
  shows "\<forall>e\<in>set evs. \<exists>x\<in>set xs. Q x e"
  using assms(2)
proof (induction xs arbitrary: s h r evs)
  case Nil
  then show ?case by (auto simp: pure_def)
next
  case (Cons x xs)
  obtain r1 e1 where b: "body x s h = (r1, e1)" by (cases "body x s h")
  show ?case
  proof (cases r1)
    case (Inl e)
    with Cons.prems b have "evs = e1" by (simp add: seq_def)
    with assms(1)[OF b] show ?thesis by auto
  next
    case (Inr s')
    obtain r2 e2 where rest: "for_each body xs s' (h @ e1) = (r2, e2)"
      by (cases "for_each body xs s' (h @ e1)")
    with Cons.prems b Inr have "evs = e1 @ e2" by (simp add: seq_def)
    with assms(1)[OF b] Cons.IH[OF rest] show ?thesis by auto
  qed
qed

lemma cleanup_line_events:
  assumes "cleanup_line w dry_run line n h = (r, evs)"
  shows "\<forall>e\<in>set evs. \<exists>sz p res. e = Run [''hdfs'', ''dfs'', ''-rm'', p] None res \<and>
           listed_entry line = Some (sz, p) \<and> sz \<le> CLEANUP_THRESHOLD_BYTES \<and> \<not> dry_run"
  using assms
  by (auto simp: cleanup_line_def listed_entry_def Let_def try_except_def seq_def pure_def raise_def
        of_result_def subprocess_def split: if_splits option.splits sum.splits prod.splits)

lemma sweep_deletes:
  assumes "cleanup_corrupted_files w date dry_run h = (r, evs)"
    and "e \<in> set evs" "is_delete e"
  shows "\<exists>out line sz p res.
           hd evs = Run [''hdfs'', ''dfs'', ''-ls'', partition_path date] None
                      (Inr (CompletedProcess 0 out)) \<and>
           line \<in> set (split_lines out) \<and> listed_entry line = Some (sz, p) \<and>
           sz \<le> CLEANUP_THRESHOLD_BYTES \<and> \<not> dry_run \<and>
           e = Run [''hdfs'', ''dfs'', ''-rm'', p] None res"
proof -
  define ls where "ls = Run [''hdfs'', ''dfs'', ''-ls'', partition_path date] None
                          (subprocess_run w h [''hdfs'', ''dfs'', ''-ls'', partition_path date] None)"
  have not_del: "\<not> is_delete ls"
    by (simp add: ls_def is_delete_def)
  show ?thesis
  proof (cases "subprocess_run w h [''hdfs'', ''dfs'', ''-ls'', partition_path date] None")
    case (Inl x)
    with assms(1) have "evs = [ls]"
      by (auto simp: cleanup_corrupted_files_def Let_def try_except_def seq_def pure_def
            subprocess_def ls_def)
    with assms(2,3) not_del show ?thesis by simp
  next
    case (Inr c)
    obtain code out where c: "c = CompletedProcess code out" by (cases c)
    show ?thesis
    proof (cases "code = 0")
      case False
      with assms(1) Inr c have "evs = [ls]"
        by (auto simp: cleanup_corrupted_files_def Let_def try_except_def seq_def pure_def
              subprocess_def ls_def)
      with assms(2,3) not_del show ?thesis by simp
    next
      case True
      obtain r' rms where loop:
        "for_each (cleanup_line w dry_run) (split_lines out) 0 (h @ [ls]) = (r', rms)"
        by (cases "for_each (cleanup_line w dry_run) (split_lines out) 0 (h @ [ls])")
      with assms(1) Inr c True have evs: "evs = ls # rms"
        by (auto simp: cleanup_corrupted_files_def Let_def try_except_def seq_def pure_def
              subprocess_def ls_def split: sum.splits)
      with assms(2,3) not_del have "e \<in> set rms" by auto
      moreover have "\<forall>e\<in>set rms. \<exists>line\<in>set (split_lines out). \<exists>sz p res.
             e = Run [''hdfs'', ''dfs'', ''-rm'', p] None res \<and>
             listed_entry line = Some (sz, p) \<and> sz \<le> CLEANUP_THRESHOLD_BYTES \<and> \<not> dry_run"
        by (rule for_each_events[OF _ loop]) (rule cleanup_line_events)
      ultimately obtain line sz p res where "line \<in> set (split_lines out)"
        "e = Run [''hdfs'', ''dfs'', ''-rm'', p] None res" "listed_entry line = Some (sz, p)"
        "sz \<le> CLEANUP_THRESHOLD_BYTES" "\<not> dry_run"
        by blast
      then show ?thesis
        using evs Inr c True by (auto simp: ls_def)
    qed
  qed
qed

lemma set_update_subset: "set (AList.update k v al) \<subseteq> insert (k, v) (set al)"
  by (induction al) auto

lemma keys_update: "fst ` set (AList.update k v al) = insert k (fst ` set al)"
  by (induction al) auto

lemma sized_keep:
  assumes "sized F (file_info, total_size, skipped_files)" "MIN_FILE_SIZE_BYTES \<le> sz" "f \<in> F"
  shows "sized F (AList.update f sz file_info, total_size', skipped_files')"
  using assms set_update_subset[of f sz file_info]
  by (auto simp: sized_def keys_update distinct_update)

lemma sized_skip:
  "sized F (file_info, total_size, skipped_files) \<Longrightarrow> sized F (file_info, total_size', skipped_files')"
  by (simp add: sized_def)

lemma match_sizes_sized:
  "sized F st \<Longrightarrow> set files \<subseteq> F \<Longrightarrow> sized F (match_sizes size_map files st)"
proof (induction size_map files st rule: match_sizes.induct)
  case (1 size_map st)
  then show ?case by simp
next
  case (2 size_map file_path files file_info total_size skipped_files)
  from "2.prems" have f: "file_path \<in> F" and fs: "set files \<subseteq> F"
    by simp_all
  show ?case
  proof (cases "map_of size_map file_path")
    case None
    with "2.IH"(1)[OF None sized_skip[OF "2.prems"(1)] fs] show ?thesis by simp
  next
    case (Some sz)
    show ?thesis
    proof (cases "sz < MIN_FILE_SIZE_BYTES")
      case True
      with Some "2.IH"(2)[OF Some True sized_skip[OF "2.prems"(1)] fs] show ?thesis by simp
    next
      case False
      then have "MIN_FILE_SIZE_BYTES \<le> sz" by simp
      from Some False "2.IH"(3)[OF Some False sized_keep[OF "2.prems"(1) this f] fs]
      show ?thesis by simp
    qed
  qed
qed

lemma match_sizes_covered:
  "covered st \<union> set files \<subseteq> covered (match_sizes size_map files st)"
proof (induction size_map files st rule: match_sizes.induct)
  case (1 size_map st)
  then show ?case by simp
next
  case (2 size_map file_path files file_info total_size skipped_files)
  then show ?case
    by (auto simp: covered_def keys_update split: option.splits if_splits)
qed

lemma info_of_client_step:
  assumes "info_of_client w f st h = (r, evs)"
  obtains (skip) file_info total_size skipped_files where
      "st = (file_info, total_size, skipped_files)"
      "r = Inr (file_info, total_size, skipped_files @ [f])"
  | (keep) file_info total_size skipped_files sz where
      "st = (file_info, total_size, skipped_files)" "MIN_FILE_SIZE_BYTES \<le> sz"
      "r = Inr (AList.update f sz file_info, total_size + sz, skipped_files)"
  using assms
  by (cases st)
     (auto simp: info_of_client_def try_except_def seq_def pure_def client_info_def
        split: sum.splits if_splits prod.splits)

lemma client_loop:
  assumes "for_each (info_of_client w) files st h = (r, evs)" "sized F st" "set files \<subseteq> F"
  shows "\<exists>st'. r = Inr st' \<and> sized F st' \<and> covered st \<union> set files \<subseteq> covered st'"
  using assms
proof (induction files arbitrary: st h r evs)
  case Nil
  then show ?case by (cases st) (auto simp: pure_def)
next
  case (Cons f files)
  obtain r1 e1 where b: "info_of_client w f st h = (r1, e1)"
    by (cases "info_of_client w f st h")
  from b obtain st1 where r1: "r1 = Inr st1" and s1: "sized F st1"
    and c1: "insert f (covered st) \<subseteq> covered st1"
  proof (cases rule: info_of_client_step)
    case (skip file_info total_size skipped_files)
    with Cons.prems(2) that[of "(file_info, total_size, skipped_files @ [f])"] show ?thesis
      by (auto simp: covered_def intro: sized_skip)
  next
    case (keep file_info total_size skipped_files sz)
    with Cons.prems(2,3) that[of "(AList.update f sz file_info, total_size + sz, skipped_files)"]
    show ?thesis
      by (auto simp: covered_def keys_update intro: sized_keep)
  qed
  obtain r2 e2 where rest: "for_each (info_of_client w) files st1 (h @ e1) = (r2, e2)"
    by (cases "for_each (info_of_client w) files st1 (h @ e1)")
  with Cons.prems(1) b r1 have "r = r2" by (simp add: seq_def)
  moreover from Cons.IH[OF rest s1] Cons.prems(3) obtain st' where
    "r2 = Inr st'" "sized F st'" "covered st1 \<union> set files \<subseteq> covered st'"
    by auto
  ultimately show ?case using c1 by auto
qed

lemma file_info_scan_sized:
  assumes "file_info_scan w files h = (r, evs)"
  shows "\<exists>st. r = Inr st \<and> sized (set files) st \<and> set files \<subseteq> covered st"
proof (cases "hdfs_client w")
  case True
  with assms have "for_each (info_of_client w) files ([], 0, []) h = (r, evs)"
    by (simp add: file_info_scan_def)
  from client_loop[OF this, of "set files"] show ?thesis
    by (auto simp: sized_def)
next
  case False
  have init: "sized (set files) ([], 0, files)" "sized (set files) ([], 0, [])"
    by (simp_all add: sized_def)
  have m: "sized (set files) (match_sizes size_map files ([], 0, []))
           \<and> set files \<subseteq> covered (match_sizes size_map files ([], 0, []))" for size_map
    using match_sizes_sized[OF init(2), of files size_map]
      match_sizes_covered[of "([], 0, [])" files size_map] by simp
  have "r = Inr ([], 0, files) \<or> (\<exists>size_map. r = Inr (match_sizes size_map files ([], 0, [])))"
    using assms False
    by (auto simp: file_info_scan_def Let_def try_except_def seq_def pure_def subprocess_def
          split: if_splits sum.splits prod.splits)
  then show ?thesis
  proof (elim disjE exE)
    assume "r = Inr ([], 0, files)"
    with init(1) show ?thesis by (simp add: covered_def)
  next
    fix size_map
    assume "r = Inr (match_sizes size_map files ([], 0, []))"
    with m[of size_map] show ?thesis by simp
  qed
qed

lemma distinct_keys_length:
  assumes "distinct (map fst al)" "fst ` set al \<subseteq> set xs"
  shows "length al \<le> length xs"
proof -
  have "length al = card (set (map fst al))"
    using assms(1) distinct_card[of "map fst al"] by simp
  also have "\<dots> \<le> card (set xs)"
    using assms(2) by (auto intro: card_mono)
  also have "\<dots> \<le> length xs"
    by (rule card_length)
  finally show ?thesis .
qed

lemma sweep_phase:
  "cleanup_corrupted_files sweep_world the_day False [] = (Inr 1, take 2 sweep_events)"
  by code_simp

lemma scan_phase:
  "get_daily_files sweep_world the_day ([] @ take 2 sweep_events) =
     (Inr [partition_file the_day ''telemetry-1.parquet'',
           partition_file the_day ''telemetry-3.parquet''], drop 2 sweep_events)"
  by code_simp

lemma small_scan:
  "file_info_scan small_world five_files [] =
     (Inr ([(source_file 1, 35700), (source_file 3, 35700), (source_file 4, 35700),
            (source_file 5, 35700)], 142800, [source_file 2]),
      map (\<lambda>f. HdfsInfo f (Inr (if f = source_file 2 then 500 else 35700))) five_files)"
  by code_simp

lemma gate_skips:
  assumes "cleanup_corrupted_files w date dry_run h = (r1, sw)"
    and "get_daily_files w date (h @ sw) = (Inr files, sc)"
    and "length files < MIN_FILES_TO_CONSOLIDATE"
  shows "consolidate_date w date target_size_mb dry_run h = (Inr True, sw @ sc)"
proof -
  from no_raiseD[OF no_raise_cleanup assms(1)] obtain deleted where "r1 = Inr deleted"
    by blast
  with assms show ?thesis
    by (simp add: consolidate_date_def seq_def pure_def)
qed

lemma get_file_info_length:
  assumes "get_file_info w files h = (Inr info, evs)"
  shows "length (fi_files info) \<le> length files"
proof -
  obtain r sc where scan: "file_info_scan w files h = (r, sc)"
    by (cases "file_info_scan w files h")
  from file_info_scan_sized[OF scan] obtain file_info total_size skipped_files where
    r: "r = Inr (file_info, total_size, skipped_files)"
    and s: "sized (set files) (file_info, total_size, skipped_files)"
    by (metis prod_cases3)
  from assms scan r have "fi_files info = file_info"
    by (auto simp: get_file_info_def seq_def pure_def)
  with s show ?thesis
    by (auto simp: sized_def intro: distinct_keys_length)
qed

lemma run_sweep: "consolidate_date sweep_world the_day 128 False [] = (Inr True, sweep_events)"
  using gate_skips[OF sweep_phase scan_phase, of 128]
  by (simp add: MIN_FILES_TO_CONSOLIDATE_def sweep_events_def)

section \<open>The claims\<close>

text \<open>
  C4 (dry-run purity). With the dry-run flag set, \<^verbatim>\<open>consolidate_date\<close> returns \<^verbatim>\<open>True\<close> and every
  call it makes is a listing: there is no put, no delete (neither by the sweep nor of a
  source file), no download and no change to the local file system, whatever the partition
  holds and whether or not it has enough files.
\<close>

theorem dry_run_purity:
  assumes "consolidate_date w date target_size_mb True h = (r, evs)"
  shows "r = Inr True \<and> list_all is_listing evs \<and>
         list_all (\<lambda>e. \<not> is_put e \<and> \<not> is_delete e \<and> \<not> is_get e \<and> \<not> is_local e) evs"
  using dry_run_events[OF assms]
  by (simp add: list_all_iff is_listing_def is_put_def is_delete_def is_get_def is_local_def)

theorem dry_run_purity_witness:
  "consolidate_date client_world the_day 128 True [] =
     (Inr True,
      Run [''hdfs'', ''dfs'', ''-ls'', partition_path the_day] None (Inl OtherError)
      # HdfsLs (partition_path the_day) (Inr five_files)
      # map (\<lambda>f. HdfsInfo f (Inr 35700)) five_files)
   \<and> list_all (\<lambda>e. \<not> is_put e \<and> \<not> is_delete e \<and> \<not> is_get e \<and> \<not> is_local e)
         (snd (consolidate_date client_world the_day 128 True []))"
proof -
  have run: "consolidate_date client_world the_day 128 True [] =
     (Inr True,
      Run [''hdfs'', ''dfs'', ''-ls'', partition_path the_day] None (Inl OtherError)
      # HdfsLs (partition_path the_day) (Inr five_files)
      # map (\<lambda>f. HdfsInfo f (Inr 35700)) five_files)"
    by code_simp
  from dry_run_purity[OF run] show ?thesis
    unfolding run by simp
qed

text \<open>
  C2 (publish before delete). In every run of \<^verbatim>\<open>consolidate_date\<close>, each call made by
  \<^verbatim>\<open>remove_source_files\<close> comes after a put that succeeded; and if the put fails, the run
  returns \<^verbatim>\<open>False\<close> and makes no such call at all.
\<close>

theorem publish_before_reap:
  assumes "consolidate_date w date target_size_mb dry_run h = (r, evs)"
  shows "reap_after_publish False evs \<and>
         (list_ex (\<lambda>e. is_put e \<and> \<not> is_put_ok e) evs \<longrightarrow>
            r = Inr False \<and> list_all (\<lambda>e. \<not> is_reap e) evs)"
  using assms
proof (cases rule: consolidate_date_cases)
  case (skipped deleted sw files sc)
  note k = planning_kinds[OF skipped(1,2)]
  have a: "list_all (\<lambda>e. kind e \<noteq> Reap) evs"
    unfolding skipped(5) by (rule kinds_weaken[OF k]) auto
  have b: "list_all (\<lambda>e. kind e \<noteq> Put) evs"
    unfolding skipped(5) by (rule kinds_weaken[OF k]) auto
  from b have "\<not> list_ex (\<lambda>e. is_put e \<and> \<not> is_put_ok e) evs"
    by (simp add: list_all_iff list_ex_iff is_put_def)
  with a show ?thesis by (simp add: reap_after_publish_no_reap)
next
  case (planned deleted sw files sc info fi)
  note k = sizing_kinds[OF planned(1,2,4)]
  have a: "list_all (\<lambda>e. kind e \<noteq> Reap) evs"
    unfolding planned(7) by (rule kinds_weaken[OF k]) auto
  have b: "list_all (\<lambda>e. kind e \<noteq> Put) evs"
    unfolding planned(7) by (rule kinds_weaken[OF k]) auto
  from b have "\<not> list_ex (\<lambda>e. is_put e \<and> \<not> is_put_ok e) evs"
    by (simp add: list_all_iff list_ex_iff is_put_def)
  with a show ?thesis by (simp add: reap_after_publish_no_reap)
next
  case (ran deleted sw files sc info fi temp_dir r0 st fin)
  note k = sizing_kinds[OF ran(1,2,4)]
  have pre: "list_all (\<lambda>e. kind e \<noteq> Reap \<and> kind e \<noteq> Put) (sw @ sc @ fi)"
    by (rule kinds_weaken[OF k]) auto
  have post: "list_all (\<lambda>e. kind e \<noteq> Reap \<and> kind e \<noteq> Put) fin"
    by (rule kinds_weaken[OF finally_kind[OF ran(8)]]) auto
  have post': "list_all (\<lambda>e. kind e \<noteq> Reap) fin"
    by (rule kinds_weaken[OF post]) simp
  note st = steps_publish_before_reap[OF ran(7)]
  have evs: "evs = (sw @ sc @ fi) @ (st @ fin)"
    using ran(10) by simp
  have "reap_after_publish False ((sw @ sc @ fi) @ (st @ fin)) = reap_after_publish False (st @ fin)"
    by (rule reap_after_publish_prefix[OF pre])
  also have "\<dots> = reap_after_publish False st"
    by (rule reap_after_publish_suffix[OF post'])
  finally have mon: "reap_after_publish False evs"
    unfolding evs using st by blast
  have "r = Inr False \<and> list_all (\<lambda>e. \<not> is_reap e) evs"
    if bad: "list_ex (\<lambda>e. is_put e \<and> \<not> is_put_ok e) evs"
  proof -
    from bad obtain e where e: "e \<in> set evs" "kind e = Put" "\<not> is_put_ok e"
      by (auto simp: list_ex_iff is_put_def)
    have "e \<in> set st"
      using e(1,2) pre post unfolding evs by (auto simp: list_all_iff)
    with e have "list_ex (\<lambda>e. is_put e \<and> \<not> is_put_ok e) st"
      by (auto simp: list_ex_iff is_put_def)
    with st have r0: "r0 = Inr False" and nst: "list_all (\<lambda>e. \<not> is_reap e) st"
      by blast+
    have "list_all (\<lambda>e. \<not> is_reap e) evs"
      unfolding evs using pre post nst by (auto simp: list_all_iff is_reap_def)
    with r0 ran(9) show ?thesis by simp
  qed
  with mon show ?thesis by blast
qed

theorem publish_before_reap_witness:
  "consolidate_date client_world the_day 128 False [] = (Inr True, ok_events) \<and>
   reap_after_publish False ok_events \<and> list_ex is_reap ok_events \<and>
   consolidate_date upload_fail_world the_day 128 False [] = (Inr False, upload_fail_events) \<and>
   list_ex (\<lambda>e. is_put e \<and> \<not> is_put_ok e) upload_fail_events \<and>
   list_all (\<lambda>e. \<not> is_reap e) upload_fail_events"
proof -
  have "list_ex is_reap ok_events"
    by code_simp
  moreover have "list_ex (\<lambda>e. is_put e \<and> \<not> is_put_ok e) upload_fail_events"
    by code_simp
  ultimately show ?thesis
    using publish_before_reap[OF run_ok] publish_before_reap[OF run_upload_fail]
      run_ok run_upload_fail
    by blast
qed

text \<open>
  C3 (merge verification gate). Whenever a run writes the consolidated file, the next thing
  it does is read that file back; and unless the table read back has exactly as many rows as
  the staged input tables read before the write, the run returns \<^verbatim>\<open>False\<close> and makes no put and
  no source-file removal.
\<close>

theorem verification_gate:
  assumes "consolidate_date w date target_size_mb dry_run h = (r, evs)"
    and "evs = pre @ WriteTable tb out (Inr ()) # post"
  shows "\<exists>res post'. post = ReadTable out res # post' \<and>
           (\<not> (\<exists>v. res = Inr v \<and> length (rows v) = rows_read pre) \<longrightarrow>
              r = Inr False \<and> list_all (\<lambda>e. \<not> is_put e \<and> \<not> is_reap e) evs)"
  using assms(1)
proof (cases rule: consolidate_date_cases)
  case (skipped deleted sw files sc)
  have "list_all (\<lambda>e. \<not> is_write e) evs"
    unfolding skipped(5)
    by (rule kinds_weaken[OF planning_kinds[OF skipped(1,2)]]) (auto dest: is_write_kind)
  with assms(2) show ?thesis by simp
next
  case (planned deleted sw files sc info fi)
  have "list_all (\<lambda>e. \<not> is_write e) evs"
    unfolding planned(7)
    by (rule kinds_weaken[OF sizing_kinds[OF planned(1,2,4)]]) (auto dest: is_write_kind)
  with assms(2) show ?thesis by simp
next
  case (ran deleted sw files sc info fi temp_dir r0 st fin)
  note k = sizing_kinds[OF ran(1,2,4)]
  have p_nw: "list_all (\<lambda>e. \<not> is_write e) (sw @ sc @ fi)"
    by (rule kinds_weaken[OF k]) (auto dest: is_write_kind)
  have p_rows: "rows_read (sw @ sc @ fi) = 0"
    by (rule rows_read_no_table_io, rule kinds_weaken[OF k]) auto
  have p_quiet: "list_all (\<lambda>e. kind e \<noteq> Put \<and> kind e \<noteq> Reap) (sw @ sc @ fi)"
    by (rule kinds_weaken[OF k]) auto
  have f_nw: "list_all (\<lambda>e. \<not> is_write e) fin"
    by (rule kinds_weaken[OF finally_kind[OF ran(8)]]) (auto dest: is_write_kind)
  have f_quiet: "list_all (\<lambda>e. kind e \<noteq> Put \<and> kind e \<noteq> Reap) fin"
    by (rule kinds_weaken[OF finally_kind[OF ran(8)]]) auto
  have evs: "evs = (sw @ sc @ fi) @ st @ fin"
    using ran(10) by simp
  from steps_gate[OF ran(7)] consider
    (nowrite) "list_all (\<lambda>e. \<not> is_write e) st"
  | (wfail) a tb' out' e where "st = a @ [WriteTable tb' out' (Inl e)]"
      "list_all (\<lambda>e. \<not> is_write e) a"
  | (reread) a tb' out' res b where
      "st = a @ WriteTable tb' out' (Inr ()) # ReadTable out' res # b"
      "list_all (\<lambda>e. \<not> is_write e) a" "list_all (\<lambda>e. \<not> is_write e) b"
      "(\<exists>v. res = Inr v \<and> length (rows v) = rows_read a) \<or>
       (r0 = Inr False \<and> list_all (\<lambda>e. kind e \<noteq> Put \<and> kind e \<noteq> Reap) st)"
    by blast
  then show ?thesis
  proof cases
    case noware: nowrite
    with p_nw f_nw evs have "list_all (\<lambda>e. \<not> is_write e) evs" by simp
    with assms(2) show ?thesis by simp
  next
    case wfail
    have "((sw @ sc @ fi) @ a) @ WriteTable tb' out' (Inl e) # fin = pre @ WriteTable tb out (Inr ()) # post"
      using evs wfail(1) assms(2) by simp
    from split_unique[OF this, of is_write] p_nw wfail(2) f_nw
    show ?thesis by simp
  next
    case reread
    have "((sw @ sc @ fi) @ a) @ WriteTable tb' out' (Inr ()) # (ReadTable out' res # b @ fin)
            = pre @ WriteTable tb out (Inr ()) # post"
      using evs reread(1) assms(2) by simp
    from split_unique[OF this, of is_write] p_nw reread(2,3) f_nw
    have pre: "pre = (sw @ sc @ fi) @ a" and out: "out' = out"
      and post: "post = ReadTable out' res # b @ fin"
      by auto
    have rows: "rows_read pre = rows_read a"
      unfolding pre using p_rows by (simp add: rows_read_append)
    have "r = Inr False \<and> list_all (\<lambda>e. \<not> is_put e \<and> \<not> is_reap e) evs"
      if "\<not> (\<exists>v. res = Inr v \<and> length (rows v) = rows_read pre)"
    proof -
      from that rows reread(4) have r0: "r0 = Inr False"
        and quiet: "list_all (\<lambda>e. kind e \<noteq> Put \<and> kind e \<noteq> Reap) st"
        by auto
      have "list_all (\<lambda>e. kind e \<noteq> Put \<and> kind e \<noteq> Reap) evs"
        unfolding evs using p_quiet quiet f_quiet by simp
      then have "list_all (\<lambda>e. \<not> is_put e \<and> \<not> is_reap e) evs"
        by (simp add: is_put_def is_reap_def)
      with r0 ran(9) show ?thesis by simp
    qed
    with post out show ?thesis by blast
  qed
qed

theorem verification_gate_witness:
  "consolidate_date mismatch_world the_day 128 False [] = (Inr False, mismatch_events) \<and>
   mismatch_events =
     before_write @ WriteTable (merged_table five_files) merged_local (Inr ())
       # ReadTable merged_local (Inr short_table) # [PathExists staging True, Rmtree staging (Inr ())] \<and>
   length (rows short_table) = 3 \<and> rows_read before_write = 5 \<and>
   list_all (\<lambda>e. \<not> is_put e \<and> \<not> is_reap e) mismatch_events"
proof -
  have rows: "length (rows short_table) = 3" "rows_read before_write = 5"
    by code_simp+
  from verification_gate[OF run_mismatch mismatch_events_def] rows
  show ?thesis
    using run_mismatch mismatch_events_def by auto
qed

text \<open>
  C8 (staging clean-up), as the claim states it: once the staging directory is created it is
  removed before \<^verbatim>\<open>consolidate_date\<close> returns. This fails when \<^verbatim>\<open>shutil.rmtree\<close> raises: the run
  below creates the directory, publishes, returns \<^verbatim>\<open>True\<close>, and its only \<^verbatim>\<open>rmtree\<close> call failed.
\<close>

theorem staging_removed_counterexample:
  "consolidate_date rmtree_fail_world the_day 128 False [] = (Inr True, rmtree_fail_events) \<and>
   Makedirs staging (Inr ()) \<in> set rmtree_fail_events \<and>
   Rmtree staging (Inr ()) \<notin> set rmtree_fail_events \<and>
   last rmtree_fail_events = Rmtree staging (Inl OtherError)"
proof -
  have "Makedirs staging (Inr ()) \<in> set rmtree_fail_events"
    by code_simp
  moreover have "Rmtree staging (Inr ()) \<notin> set rmtree_fail_events"
    by code_simp
  moreover have "last rmtree_fail_events = Rmtree staging (Inl OtherError)"
    by (simp add: rmtree_fail_events_def)
  ultimately show ?thesis
    using run_rmtree_fail by simp
qed

text \<open>
  C8 (staging clean-up), amended. \<^verbatim>\<open>consolidate_date\<close> never raises. In every run that called
  \<^verbatim>\<open>os.makedirs\<close> on a directory, the last thing the run does is the \<^verbatim>\<open>finally\<close> clause for that
  directory: it checks that the directory exists and, if so, calls \<^verbatim>\<open>shutil.rmtree\<close> on it (whose
  failure is swallowed). And when two staged input tables differ in schema, the run returns
  \<^verbatim>\<open>False\<close> and attempts no put, the clean-up included.
\<close>

theorem staging_cleanup:
  assumes "consolidate_date w date target_size_mb dry_run h = (r, evs)"
  shows "(\<exists>b. r = Inr b) \<and>
         (\<forall>dir res. Makedirs dir res \<in> set evs \<longrightarrow> cleaned_up dir evs) \<and>
         (\<forall>t1\<in>set (inputs_read evs). \<forall>t2\<in>set (inputs_read evs).
            schema t1 \<noteq> schema t2 \<longrightarrow> r = Inr False \<and> list_all (\<lambda>e. \<not> is_put e) evs)"
  using assms
proof (cases rule: consolidate_date_cases)
  case (skipped deleted sw files sc)
  note k = planning_kinds[OF skipped(1,2)]
  have "list_all (\<lambda>e. kind e \<noteq> TableIO \<and> kind e \<noteq> Mkdir) evs"
    unfolding skipped(5) by (rule kinds_weaken[OF k]) auto
  then have "inputs_read evs = []" and "\<And>dir res. Makedirs dir res \<notin> set evs"
    using inputs_read_quiet[of evs "[]"] by (force simp: list_all_iff)+
  with skipped(4) show ?thesis by auto
next
  case (planned deleted sw files sc info fi)
  note k = sizing_kinds[OF planned(1,2,4)]
  have "list_all (\<lambda>e. kind e \<noteq> TableIO \<and> kind e \<noteq> Mkdir) evs"
    unfolding planned(7) by (rule kinds_weaken[OF k]) auto
  then have "inputs_read evs = []" and "\<And>dir res. Makedirs dir res \<notin> set evs"
    using inputs_read_quiet[of evs "[]"] by (force simp: list_all_iff)+
  with planned(6) show ?thesis by auto
next
  case (ran deleted sw files sc info fi temp_dir r0 st fin)
  note k = sizing_kinds[OF ran(1,2,4)]
  note kf = finally_kind[OF ran(8)]
  have evs: "evs = (sw @ sc @ fi) @ st @ fin"
    using ran(10) by simp
  have p: "list_all (\<lambda>e. kind e \<noteq> TableIO \<and> kind e \<noteq> Mkdir \<and> kind e \<noteq> Put) (sw @ sc @ fi)"
    by (rule kinds_weaken[OF k]) auto
  have f: "list_all (\<lambda>e. kind e \<noteq> TableIO \<and> kind e \<noteq> Mkdir \<and> kind e \<noteq> Put) fin"
    by (rule kinds_weaken[OF kf]) auto
  have clean: "cleaned_up dir evs" if "Makedirs dir res \<in> set evs" for dir res
  proof -
    have "Makedirs dir res \<notin> set (sw @ sc @ fi)" "Makedirs dir res \<notin> set fin"
      using p f by (force simp: list_all_iff)+
    with that have "Makedirs dir res \<in> set st"
      unfolding evs by auto
    from steps_mkdir[OF ran(7) this] have "dir = temp_dir" .
    then show ?thesis
      using cleaned_up_finally[OF ran(8), of "(sw @ sc @ fi) @ st"] unfolding evs by simp
  qed
  have inputs: "inputs_read evs = inputs_read st"
  proof -
    have "inputs_read evs = inputs_read (st @ fin)"
      unfolding evs by (rule inputs_read_quiet, rule kinds_weaken[OF p]) simp
    also have "\<dots> = inputs_read st"
      by (rule inputs_read_quiet_end, rule kinds_weaken[OF f]) simp
    finally show ?thesis .
  qed
  have mismatch: "r = Inr False \<and> list_all (\<lambda>e. \<not> is_put e) evs"
    if "t1 \<in> set (inputs_read evs)" "t2 \<in> set (inputs_read evs)" "schema t1 \<noteq> schema t2"
    for t1 t2
  proof -
    from steps_schema[OF ran(7)] that inputs
    have r0: "r0 \<noteq> Inr True" and q: "list_all (\<lambda>e. kind e \<noteq> Put) st"
      by auto
    from r0 ran(9) have "r = Inr False"
      by (cases r0) auto
    moreover have "list_all (\<lambda>e. \<not> is_put e) evs"
      unfolding evs using p f q by (auto simp: list_all_iff is_put_def)
    ultimately show ?thesis by simp
  qed
  have "\<exists>b. r = Inr b"
    using ran(9) by simp
  moreover have "\<forall>dir res. Makedirs dir res \<in> set evs \<longrightarrow> cleaned_up dir evs"
    using clean by blast
  moreover have "\<forall>t1\<in>set (inputs_read evs). \<forall>t2\<in>set (inputs_read evs).
            schema t1 \<noteq> schema t2 \<longrightarrow> r = Inr False \<and> list_all (\<lambda>e. \<not> is_put e) evs"
    using mismatch by blast
  ultimately show ?thesis by (intro conjI)
qed

theorem staging_cleanup_witness:
  "consolidate_date schema_world the_day 128 False [] = (Inr False, schema_events) \<and>
   Makedirs staging (Inr ()) \<in> set schema_events \<and> cleaned_up staging schema_events \<and>
   one_row (source_file 1) \<in> set (inputs_read schema_events) \<and>
   odd_table \<in> set (inputs_read schema_events) \<and>
   schema (one_row (source_file 1)) \<noteq> schema odd_table \<and>
   list_all (\<lambda>e. \<not> is_put e) schema_events"
proof -
  have m: "Makedirs staging (Inr ()) \<in> set schema_events"
    by code_simp
  have i1: "one_row (source_file 1) \<in> set (inputs_read schema_events)"
    by code_simp
  have i2: "odd_table \<in> set (inputs_read schema_events)"
    by code_simp
  have s: "schema (one_row (source_file 1)) \<noteq> schema odd_table"
    by code_simp
  from staging_cleanup[OF run_schema] m i1 i2 s run_schema
  show ?thesis by blast
qed

text \<open>
  C5 (eligibility gating), as the claim states it: when fewer than the minimum number of
  entries are eligible, the run stops with success and makes no remote put or delete call.
  In the partition below two files are listed after the sweep, fewer than five, and the run
  stops with success; but the sweep, which runs before the gate, has deleted a file.
\<close>

theorem eligibility_counterexample:
  "get_daily_files sweep_world the_day ([] @ take 2 sweep_events) =
     (Inr [partition_file the_day ''telemetry-1.parquet'',
           partition_file the_day ''telemetry-3.parquet''], drop 2 sweep_events) \<and>
   length [partition_file the_day ''telemetry-1.parquet'',
           partition_file the_day ''telemetry-3.parquet''] < MIN_FILES_TO_CONSOLIDATE \<and>
   consolidate_date sweep_world the_day 128 False [] = (Inr True, sweep_events) \<and>
   list_ex is_delete sweep_events"
proof -
  have "list_ex is_delete sweep_events"
    by code_simp
  with scan_phase run_sweep show ?thesis
    by (simp add: MIN_FILES_TO_CONSOLIDATE_def)
qed

text \<open>
  C5 (eligibility gating), amended. The gate counts the files that \<^verbatim>\<open>get_daily_files\<close> lists
  after the sweep. When fewer than \<^verbatim>\<open>MIN_FILES_TO_CONSOLIDATE\<close> are listed, the run is just the
  sweep and the listing: it returns \<^verbatim>\<open>True\<close>, with no put, no download, no source-file removal
  and no local change, and its only deletions are those of the sweep (none under dry-run).
  The size-filtered file map of \<^verbatim>\<open>get_file_info\<close> never has more entries than the listing, so
  a partition with at least the minimum number of eligible entries passes the gate.
\<close>

theorem eligibility_gate:
  assumes "cleanup_corrupted_files w date dry_run h = (r1, sw)"
    and "get_daily_files w date (h @ sw) = (Inr files, sc)"
    and "length files < MIN_FILES_TO_CONSOLIDATE"
  shows "consolidate_date w date target_size_mb dry_run h = (Inr True, sw @ sc) \<and>
         list_all (\<lambda>e. \<not> is_put e \<and> \<not> is_get e \<and> \<not> is_reap e \<and> \<not> is_local e) (sw @ sc) \<and>
         list_all (\<lambda>e. is_delete e \<longrightarrow> is_sweep_rm e \<and> \<not> dry_run) (sw @ sc) \<and>
         (\<forall>fs h' info evs. get_file_info w fs h' = (Inr info, evs) \<longrightarrow>
            length (fi_files info) \<le> length fs)"
proof -
  note k = planning_kinds[OF assms(1,2)]
  have a: "list_all (\<lambda>e. \<not> is_put e \<and> \<not> is_get e \<and> \<not> is_reap e \<and> \<not> is_local e) (sw @ sc)"
    by (rule kinds_weaken[OF k]) (auto simp: is_put_def is_get_def is_reap_def is_local_def)
  have b: "list_all (\<lambda>e. is_delete e \<longrightarrow> is_sweep_rm e \<and> \<not> dry_run) (sw @ sc)"
  proof (cases dry_run)
    case True
    from assms(1) True have "cleanup_corrupted_files w date True h = (r1, sw)"
      by simp
    then have "list_all (\<lambda>e. kind e = Listing) sw"
      by (rule emitsD[OF emits_cleanup_dry])
    moreover note emitsD[OF emits_get_daily_files assms(2)]
    ultimately have "list_all (\<lambda>e. kind e = Listing) (sw @ sc)" by simp
    then show ?thesis
      by (rule kinds_weaken) (simp add: is_delete_def)
  next
    case False
    show ?thesis
      by (rule kinds_weaken[OF k]) (auto simp: is_delete_def is_sweep_rm_def False)
  qed
  from gate_skips[OF assms] a b get_file_info_length show ?thesis
    by blast
qed

theorem eligibility_gate_witness:
  "cleanup_corrupted_files sweep_world the_day False [] = (Inr 1, take 2 sweep_events) \<and>
   get_daily_files sweep_world the_day ([] @ take 2 sweep_events) =
     (Inr [partition_file the_day ''telemetry-1.parquet'',
           partition_file the_day ''telemetry-3.parquet''], drop 2 sweep_events) \<and>
   length [partition_file the_day ''telemetry-1.parquet'',
           partition_file the_day ''telemetry-3.parquet''] < MIN_FILES_TO_CONSOLIDATE \<and>
   consolidate_date sweep_world the_day 128 False [] =
     (Inr True, take 2 sweep_events @ drop 2 sweep_events) \<and>
   list_all (\<lambda>e. \<not> is_put e \<and> \<not> is_get e \<and> \<not> is_reap e \<and> \<not> is_local e)
     (take 2 sweep_events @ drop 2 sweep_events)"
proof -
  have few: "length [partition_file the_day ''telemetry-1.parquet'',
           partition_file the_day ''telemetry-3.parquet''] < MIN_FILES_TO_CONSOLIDATE"
    by (simp add: MIN_FILES_TO_CONSOLIDATE_def)
  from eligibility_gate[OF sweep_phase scan_phase few, of 128] sweep_phase scan_phase few
  show ?thesis by blast
qed

text \<open>
  C6 (threshold independence), as the claim states it: \<^verbatim>\<open>MIN_FILE_SIZE_BYTES\<close> is larger than
  \<^verbatim>\<open>CLEANUP_THRESHOLD_BYTES\<close>. Both are 1024.
\<close>

theorem threshold_order_counterexample:
  "\<not> CLEANUP_THRESHOLD_BYTES < MIN_FILE_SIZE_BYTES"
  by (simp add: CLEANUP_THRESHOLD_BYTES_def MIN_FILE_SIZE_BYTES_def)

text \<open>
  C6 (threshold independence), amended. The two constants are separate and both 1024, so no
  size lies strictly between them. The sweep deletes only what its listing shows with a size
  of at most \<^verbatim>\<open>CLEANUP_THRESHOLD_BYTES\<close>, and never under dry-run; the file map of
  \<^verbatim>\<open>get_file_info\<close> holds only entries of at least \<^verbatim>\<open>MIN_FILE_SIZE_BYTES\<close>, and every other file it
  was given is in \<^verbatim>\<open>skipped_files\<close>.
\<close>

theorem threshold_roles:
  assumes "cleanup_corrupted_files w date dry_run h = (r, evs)"
    and "file_info_scan w' files h' = (r', evs')"
  shows "CLEANUP_THRESHOLD_BYTES = 1024 \<and> MIN_FILE_SIZE_BYTES = 1024 \<and>
         (\<forall>e\<in>set evs. is_delete e \<longrightarrow>
            (\<exists>out line sz p res.
               hd evs = Run [''hdfs'', ''dfs'', ''-ls'', partition_path date] None
                          (Inr (CompletedProcess 0 out)) \<and>
               line \<in> set (split_lines out) \<and> listed_entry line = Some (sz, p) \<and>
               sz \<le> CLEANUP_THRESHOLD_BYTES \<and> \<not> dry_run \<and>
               e = Run [''hdfs'', ''dfs'', ''-rm'', p] None res)) \<and>
         (\<exists>file_info total_size skipped_files.
            r' = Inr (file_info, total_size, skipped_files) \<and>
            (\<forall>(p, sz)\<in>set file_info. MIN_FILE_SIZE_BYTES \<le> sz) \<and>
            set files \<subseteq> fst ` set file_info \<union> set skipped_files)"
proof -
  from file_info_scan_sized[OF assms(2)] obtain file_info total_size skipped_files where
    "r' = Inr (file_info, total_size, skipped_files)"
    "sized (set files) (file_info, total_size, skipped_files)"
    "set files \<subseteq> covered (file_info, total_size, skipped_files)"
    by (metis prod_cases3)
  then have "\<exists>file_info total_size skipped_files.
            r' = Inr (file_info, total_size, skipped_files) \<and>
            (\<forall>(p, sz)\<in>set file_info. MIN_FILE_SIZE_BYTES \<le> sz) \<and>
            set files \<subseteq> fst ` set file_info \<union> set skipped_files"
    by (auto simp: sized_def covered_def)
  moreover have "\<forall>e\<in>set evs. is_delete e \<longrightarrow>
            (\<exists>out line sz p res.
               hd evs = Run [''hdfs'', ''dfs'', ''-ls'', partition_path date] None
                          (Inr (CompletedProcess 0 out)) \<and>
               line \<in> set (split_lines out) \<and> listed_entry line = Some (sz, p) \<and>
               sz \<le> CLEANUP_THRESHOLD_BYTES \<and> \<not> dry_run \<and>
               e = Run [''hdfs'', ''dfs'', ''-rm'', p] None res)"
    using sweep_deletes[OF assms(1)] by blast
  ultimately show ?thesis
    by (simp add: CLEANUP_THRESHOLD_BYTES_def MIN_FILE_SIZE_BYTES_def)
qed

theorem threshold_roles_witness:
  "cleanup_corrupted_files sweep_world the_day False [] = (Inr 1, take 2 sweep_events) \<and>
   file_info_scan small_world five_files [] =
     (Inr ([(source_file 1, 35700), (source_file 3, 35700), (source_file 4, 35700),
            (source_file 5, 35700)], 142800, [source_file 2]),
      map (\<lambda>f. HdfsInfo f (Inr (if f = source_file 2 then 500 else 35700))) five_files) \<and>
   CLEANUP_THRESHOLD_BYTES = 1024 \<and> MIN_FILE_SIZE_BYTES = 1024 \<and>
   is_delete (Run [''hdfs'', ''dfs'', ''-rm'', tiny_file] None (Inr (CompletedProcess 0 []))) \<and>
   listed_entry (ls_line ''100'' ''telemetry-2.parquet'') = Some (100, tiny_file)"
proof -
  have "is_delete (Run [''hdfs'', ''dfs'', ''-rm'', tiny_file] None (Inr (CompletedProcess 0 [])))"
    by (simp add: is_delete_def)
  moreover have "listed_entry (ls_line ''100'' ''telemetry-2.parquet'') = Some (100, tiny_file)"
    by code_simp
  ultimately show ?thesis
    using threshold_roles[OF sweep_phase small_scan] sweep_phase small_scan by blast
qed

end
